theory Spec2Isabelle
  imports Complex_Main "HOL-Library.Word" "HOL-Library.AList" "HOL-Library.Multiset"
begin

unbundle bit_operations_syntax

section \<open>Machine types\<close>

type_synonym u8 = "8 word"
type_synonym u16 = "16 word"
type_synonym u32 = "32 word"
type_synonym u64 = "64 word"

section \<open>Variable-length integers (csx.cc)\<close>

text \<open>
  \<^verbatim>\<open>da_put_ul(da, val)\<close>: the loop appends one byte per round to the dynamic array
  \<open>da\<close>: the low seven bits of \<open>val\<close>, with bit 7 set while \<open>val \<ge> 128\<close>.
\<close>

function da_put_ul :: "u8 list \<Rightarrow> u64 \<Rightarrow> u8 list" where
  "da_put_ul da val =
     (let uc = (ucast (val AND 127) :: u8) in
      if val < 128 then da @ [uc]
      else da_put_ul (da @ [uc OR 128]) (drop_bit 7 val))"
  by pat_completeness auto
termination
proof (relation "measure (\<lambda>(da, val). unat val)")
  show "wf (measure (\<lambda>(da, val). unat val))" by simp
next
  fix da :: "u8 list" and val :: u64 and uc :: u8
  assume "\<not> val < 128"
  then have "128 \<le> unat val" by (simp add: word_less_nat_alt not_less)
  moreover have "unat (drop_bit 7 val) = unat val div 128"
    by (simp add: drop_bit_eq_div unat_div)
  ultimately have "unat (drop_bit 7 val) < unat val" by simp
  then show "((da @ [uc OR 128], drop_bit 7 val), (da, val)) \<in> measure (\<lambda>(da, val). unat val)"
    by simp
qed

declare da_put_ul.simps [simp del]

text \<open>
  \<^verbatim>\<open>u8_get(ptr)\<close> reads the byte under \<open>ptr\<close> and advances it. The stream is the list
  of bytes from \<open>ptr\<close> on; reading past its end has no result.
\<close>

definition u8_get :: "u8 list \<Rightarrow> (u8 \<times> u8 list) option" where
  "u8_get ptr = (case ptr of [] \<Rightarrow> None | b # rest \<Rightarrow> Some (b, rest))"

text \<open>
  The inner \<^verbatim>\<open>for (;;)\<close> of the macro \<^verbatim>\<open>uc_get_ul\<close>. As the macro is written, the byte
  read in each round is stored in \<^verbatim>\<open>uc\<close>, while the test and the arithmetic read the
  local \<^verbatim>\<open>_uc\<close>, which is declared without an initialiser and never assigned from the
  stream. The model therefore carries \<open>_uc\<close> as an argument (its indeterminate initial
  value is an argument of \<open>uc_get_ul\<close>) and ignores the byte read.
\<close>

fun uc_get_ul_loop :: "u64 \<Rightarrow> u8 list \<Rightarrow> u64 \<Rightarrow> nat \<Rightarrow> (u64 \<times> u8 list) option" where
  "uc_get_ul_loop uc' [] val' shift = None"
| "uc_get_ul_loop uc' (uc # ptr) val' shift =
     (if uc' > 127
      then uc_get_ul_loop (uc' - 128) ptr (val' + push_bit shift (uc' - 128)) (shift + 7)
      else Some (val' + push_bit shift uc', ptr))"

definition uc_get_ul :: "u64 \<Rightarrow> u8 list \<Rightarrow> (u64 \<times> u8 list) option" where
  "uc_get_ul uc_init ptr =
     (case u8_get ptr of
        None \<Rightarrow> None
      | Some (b, ptr1) \<Rightarrow>
          (let val' = (ucast b :: u64) in
           if val' > 127 then uc_get_ul_loop uc_init ptr1 (val' - 128) 7
           else Some (val', ptr1)))"

section \<open>Smallest-fit delta width (Delta.hpp)\<close>

text \<open>
  \<^verbatim>\<open>GetDeltaSize(val)\<close>: the value is stored into the 8-, 16- and 32-bit member of the
  union in turn and compared with the original; the first width that keeps it wins.
\<close>

definition GetDeltaSize :: "u64 \<Rightarrow> nat" where
  "GetDeltaSize val =
     (if (ucast (ucast val :: u8) :: u64) = val then 1
      else if (ucast (ucast val :: u16) :: u64) = val then 2
      else if (ucast (ucast val :: u32) :: u64) = val then 4
      else 8)"


section \<open>Iteration orders, patterns and row elements\<close>

text \<open>
  Modelled from the spec: \<^verbatim>\<open>enum SpmIterOrder\<close> is declared in a header that is not
  part of the sources. The spec lists the orders (Horizontal, Vertical, Diagonal,
  AntiDiagonal, BlockRow1..8, BlockCol1..8, and the distinguished None);
  \<^verbatim>\<open>DRLE_Manager::removeIgnore\<close> shows the sentinels \<^verbatim>\<open>BLOCK_TYPE_START\<close>,
  \<^verbatim>\<open>BLOCK_COL_START\<close>, \<^verbatim>\<open>BLOCK_TYPE_END\<close> and \<^verbatim>\<open>XFORM_MAX\<close> and their order. The code
  uses the enumerators as integers (loop counters, bitset positions), so the model
  does too.
\<close>

type_synonym SpmIterOrder = nat

definition NONE :: SpmIterOrder where "NONE = 0"
definition HORIZONTAL :: SpmIterOrder where "HORIZONTAL = 1"
definition VERTICAL :: SpmIterOrder where "VERTICAL = 2"
definition DIAGONAL :: SpmIterOrder where "DIAGONAL = 3"
definition REV_DIAGONAL :: SpmIterOrder where "REV_DIAGONAL = 4"
definition BLOCK_TYPE_START :: SpmIterOrder where "BLOCK_TYPE_START = 5"
definition BLOCK_ROW_TYPE_NAME :: "nat \<Rightarrow> SpmIterOrder" where
  "BLOCK_ROW_TYPE_NAME k = BLOCK_TYPE_START + k"
definition BLOCK_COL_START :: SpmIterOrder where "BLOCK_COL_START = 14"
definition BLOCK_COL_TYPE_NAME :: "nat \<Rightarrow> SpmIterOrder" where
  "BLOCK_COL_TYPE_NAME k = BLOCK_COL_START + k"
definition BLOCK_TYPE_END :: SpmIterOrder where "BLOCK_TYPE_END = 23"
definition XFORM_MAX :: SpmIterOrder where "XFORM_MAX = 24"

text \<open>
  Modelled from the spec: \<^verbatim>\<open>isBlockType\<close> (missing header) gives the alignment \<open>k\<close> of
  BlockRow-k and BlockCol-k, and 0 for every other order.
\<close>

definition isBlockType :: "SpmIterOrder \<Rightarrow> nat" where
  "isBlockType t =
     (if BLOCK_TYPE_START < t \<and> t < BLOCK_COL_START then t - BLOCK_TYPE_START
      else if BLOCK_COL_START < t \<and> t < BLOCK_TYPE_END then t - BLOCK_COL_START
      else 0)"

text \<open>
  Modelled from the spec: the classes \<^verbatim>\<open>DeltaRLE\<close> and \<^verbatim>\<open>BlockRLE\<close> are declared in a
  missing header. A pattern descriptor is (type, delta, size); a block pattern is a
  run of stride 1 along the sweep axis that also records its other dimension.
  \<^verbatim>\<open>getNextX\<close> steps one stride along the run.
\<close>

datatype Pattern =
    DeltaRLE nat u64 SpmIterOrder
  | BlockRLE nat nat SpmIterOrder

fun GetSize :: "Pattern \<Rightarrow> nat" where
  "GetSize (DeltaRLE sz delta t) = sz"
| "GetSize (BlockRLE sz other_dim t) = sz"

fun pat_type :: "Pattern \<Rightarrow> SpmIterOrder" where
  "pat_type (DeltaRLE sz delta t) = t"
| "pat_type (BlockRLE sz other_dim t) = t"

fun pat_delta :: "Pattern \<Rightarrow> u64" where
  "pat_delta (DeltaRLE sz delta t) = delta"
| "pat_delta (BlockRLE sz other_dim t) = 1"

definition getNextX :: "Pattern \<Rightarrow> u64 \<Rightarrow> u64" where
  "getNextX p x0 = x0 + pat_delta p"

text \<open>
  \<^verbatim>\<open>SpmRowElem\<close>: a column \<^verbatim>\<open>x\<close>, and either one value (\<^verbatim>\<open>pattern == NULL\<close>) or a
  pattern with its array of values.
\<close>

datatype 'v SpmRowElem =
    Elem u64 'v
  | PatElem u64 Pattern "'v list"

fun elem_x :: "'v SpmRowElem \<Rightarrow> u64" where
  "elem_x (Elem x v) = x"
| "elem_x (PatElem x p vs) = x"

fun elem_vals :: "'v SpmRowElem \<Rightarrow> 'v list" where
  "elem_vals (Elem x v) = [v]"
| "elem_vals (PatElem x p vs) = take (GetSize p) vs"

fun is_plain :: "'v SpmRowElem \<Rightarrow> bool" where
  "is_plain (Elem x v) = True"
| "is_plain (PatElem x p vs) = False"

record 'v SPM =
  spm_type :: SpmIterOrder
  nr_cols :: nat
  row_start :: nat
  nr_nzeros :: nat
  rows :: "'v SpmRowElem list list"

definition GetNrRows :: "'v SPM \<Rightarrow> nat" where
  "GetNrRows s = length (rows s)"

section \<open>The CSX assembler (csx.cc)\<close>

text \<open>
  Modelled from the spec: the ctl constants come from a missing header. The size
  byte allows \<open>1..255\<close>; the flags byte has bit 6 = new row and bit 7 = row jump.
\<close>

definition CTL_SIZE_MAX :: nat where "CTL_SIZE_MAX = 255"
definition CTL_NR_BIT :: nat where "CTL_NR_BIT = 6"
definition CTL_RJMP_BIT :: nat where "CTL_RJMP_BIT = 7"

definition set_bit_u8 :: "u8 \<Rightarrow> nat \<Rightarrow> u8" where
  "set_bit_u8 w n = w OR push_bit n 1"

text \<open>
  Declarations the assembler uses whose definitions are not in the sources, taken as
  parameters: the cap on pattern flags, the base of the delta pattern ids, and the
  virtual methods \<^verbatim>\<open>GetPatternId\<close> and \<^verbatim>\<open>ColIncreaseJmp\<close> of a pattern.
\<close>

record Decls =
  CTL_PATTERNS_MAX :: nat
  PID_DELTA_BASE :: int
  GetPatternId :: "Pattern \<Rightarrow> int"
  ColIncreaseJmp :: "Pattern \<Rightarrow> SpmIterOrder \<Rightarrow> u64 \<Rightarrow> u64"

text \<open>
  Modelled from the spec: the enum-valued \<^verbatim>\<open>getDeltaSize\<close> and \<^verbatim>\<open>DeltaSize_getBytes\<close>
  that \<^verbatim>\<open>AddXs\<close> calls are the smallest-fit width of \<open>GetDeltaSize\<close>, as an enumerator
  (numbered from 0, as \<^verbatim>\<open>8 << delta_size\<close> needs).
\<close>

datatype DeltaSize = DELTA_U8 | DELTA_U16 | DELTA_U32 | DELTA_U64

definition getDeltaSize :: "u64 \<Rightarrow> DeltaSize" where
  "getDeltaSize val =
     (let b = GetDeltaSize val in
      if b = 1 then DELTA_U8 else if b = 2 then DELTA_U16
      else if b = 4 then DELTA_U32 else DELTA_U64)"

fun DeltaSize_getBytes :: "DeltaSize \<Rightarrow> nat" where
  "DeltaSize_getBytes DELTA_U8 = 1"
| "DeltaSize_getBytes DELTA_U16 = 2"
| "DeltaSize_getBytes DELTA_U32 = 4"
| "DeltaSize_getBytes DELTA_U64 = 8"

fun DeltaSize_index :: "DeltaSize \<Rightarrow> nat" where
  "DeltaSize_index DELTA_U8 = 0"
| "DeltaSize_index DELTA_U16 = 1"
| "DeltaSize_index DELTA_U32 = 2"
| "DeltaSize_index DELTA_U64 = 3"

text \<open>\<^verbatim>\<open>DeltaEncode(start, end, x0)\<close> of csx.cc: in place, each entry minus its predecessor.\<close>

fun DeltaEncode_csx :: "u64 \<Rightarrow> u64 list \<Rightarrow> u64 list" where
  "DeltaEncode_csx prev [] = []"
| "DeltaEncode_csx prev (tmp # rest) = (tmp - prev) # DeltaEncode_csx tmp rest"

text \<open>\<^verbatim>\<open>std::max_element\<close> over a non-empty range.\<close>

definition max_element :: "u64 list \<Rightarrow> u64" where
  "max_element l = fold max (tl l) (hd l)"

text \<open>
  \<^verbatim>\<open>Copy((uintN_t *) dst, src, n)\<close>: every entry is cast to the width and stored; a
  stored entry is its bytes, least significant first.
\<close>

definition le_bytes :: "nat \<Rightarrow> u64 \<Rightarrow> u8 list" where
  "le_bytes w v = map (\<lambda>i. ucast (drop_bit (8 * i) v)) [0..<w]"

definition Copy :: "nat \<Rightarrow> u64 list \<Rightarrow> u8 list" where
  "Copy w src = concat (map (le_bytes w) src)"

text \<open>
  Modelled from the spec: \<^verbatim>\<open>dynarray_alloc_nr_aligned(da, nr, align)\<close> first pads the
  array with zero bytes up to a multiple of \<open>align\<close>; the \<open>nr\<close> bytes follow.
\<close>

definition align_pad :: "nat \<Rightarrow> nat \<Rightarrow> u8 list" where
  "align_pad len align = replicate ((align - len mod align) mod align) 0"

datatype csx_error =
    TooManyPatterns
  | UnitSizeAssert
  | DeltaSizeAssert
  | XsEmpty
  | ValuesOverrun
  | ValuesCountAssert

record PatInfo =
  flag :: u8
  nr :: nat

text \<open>
  The state of a \<^verbatim>\<open>CsxManager\<close>. \<open>values\<close> is the array \<^verbatim>\<open>values_\<close> (\<open>None\<close> is a slot
  not written yet). \<open>ctl_units\<close> is a history variable that is not in the source: the
  offsets in \<open>ctl_da\<close> of the unit headers allocated so far. The code model only
  appends to it.
\<close>

record 'v CsxManager =
  spm :: "'v SPM"
  patterns :: "int \<rightharpoonup> PatInfo"
  flag_avail :: u8
  row_jmps :: bool
  values_buf :: "'v option list"
  values_idx :: nat
  ctl_da :: "u8 list"
  last_col :: u64
  new_row :: bool
  empty_rows :: u64
  ctl_units :: "nat list"

text \<open>
  Modelled from the constructor in CsxManager.hpp (the constructor of the csx.cc
  class is in a missing header).
\<close>

definition CsxManager_init :: "'v SPM \<Rightarrow> 'v CsxManager" where
  "CsxManager_init s =
     \<lparr>spm = s, patterns = Map.empty, flag_avail = 0, row_jmps = False, values_buf = [],
      values_idx = 0, ctl_da = [], last_col = 0, new_row = False, empty_rows = 0,
      ctl_units = []\<rparr>"

definition GetFlag ::
  "Decls \<Rightarrow> 'v CsxManager \<Rightarrow> int \<Rightarrow> nat \<Rightarrow> csx_error + (u8 \<times> 'v CsxManager)" where
  "GetFlag D m pattern_id nnz =
     (case patterns m pattern_id of
        None \<Rightarrow>
          (let ret = flag_avail m;
               m1 = m\<lparr>flag_avail := flag_avail m + 1\<rparr>
           in if \<not> unat ret \<le> CTL_PATTERNS_MAX D then Inl TooManyPatterns
              else Inr (ret, m1\<lparr>patterns := (patterns m1)(pattern_id \<mapsto> \<lparr>flag = ret, nr = nnz\<rparr>)\<rparr>))
      | Some pinfo \<Rightarrow>
          Inr (flag pinfo,
               m\<lparr>patterns := (patterns m)(pattern_id \<mapsto> pinfo\<lparr>nr := nr pinfo + nnz\<rparr>)\<rparr>))"

text \<open>
  \<^verbatim>\<open>UpdateNewRow(flags)\<close>: \<open>fl\<close> is the offset in \<open>ctl_da\<close> of the flags byte that the
  pointer \<^verbatim>\<open>flags\<close> addresses.
\<close>

definition UpdateNewRow :: "'v CsxManager \<Rightarrow> nat \<Rightarrow> 'v CsxManager" where
  "UpdateNewRow m fl =
     (if \<not> new_row m then m
      else
        (let m1 = m\<lparr>ctl_da := (ctl_da m)[fl := set_bit_u8 (ctl_da m ! fl) CTL_NR_BIT]\<rparr>;
             m2 = m1\<lparr>new_row := False\<rparr>
         in if empty_rows m2 \<noteq> 0
            then
              (let m3 = m2\<lparr>ctl_da := (ctl_da m2)[fl := set_bit_u8 (ctl_da m2 ! fl) CTL_RJMP_BIT]\<rparr>;
                   m4 = m3\<lparr>ctl_da := da_put_ul (ctl_da m3) (empty_rows m3 + 1)\<rparr>
               in m4\<lparr>empty_rows := 0, row_jmps := True\<rparr>)
            else m2))"

text \<open>
  The header sequence that \<^verbatim>\<open>AddXs\<close> and \<^verbatim>\<open>AddPattern\<close> both run, in the order of
  the source: \<^verbatim>\<open>dynarray_alloc_nr(ctl_da_, 2)\<close>, \<^verbatim>\<open>*ctl_flags = GetFlag(pat_id, nnz)\<close>,
  the assertion on the unit size (\<open>size_ok\<close> is the asserted condition),
  \<^verbatim>\<open>*ctl_size = sz\<close> and \<^verbatim>\<open>UpdateNewRow(ctl_flags)\<close>.
\<close>

definition unit_head ::
  "Decls \<Rightarrow> 'v CsxManager \<Rightarrow> int \<Rightarrow> nat \<Rightarrow> bool \<Rightarrow> nat \<Rightarrow> csx_error + 'v CsxManager" where
  "unit_head D m pat_id nnz size_ok sz =
     (let fl = length (ctl_da m);
          m1 = m\<lparr>ctl_da := ctl_da m @ [0, 0], ctl_units := ctl_units m @ [fl]\<rparr>
      in case GetFlag D m1 pat_id nnz of
           Inl e \<Rightarrow> Inl e
         | Inr (f, m2) \<Rightarrow>
             (let m3 = m2\<lparr>ctl_da := (ctl_da m2)[fl := f]\<rparr>
              in if \<not> size_ok then Inl UnitSizeAssert
                 else Inr (UpdateNewRow (m3\<lparr>ctl_da := (ctl_da m3)[fl + 1 := of_nat sz]\<rparr>) fl)))"

text \<open>
  The deltas of \<^verbatim>\<open>AddXs\<close>: the aligned allocation and the \<^verbatim>\<open>switch (delta_size)\<close>,
  which has the cases \<^verbatim>\<open>DELTA_U8\<close>, \<^verbatim>\<open>DELTA_U16\<close> and \<^verbatim>\<open>DELTA_U32\<close> and
  \<^verbatim>\<open>default: assert(false)\<close>.
\<close>

definition put_deltas ::
  "'v CsxManager \<Rightarrow> DeltaSize \<Rightarrow> u64 list \<Rightarrow> csx_error + 'v CsxManager" where
  "put_deltas m delta_size ds =
     (let delta_bytes = DeltaSize_getBytes delta_size;
          m1 = m\<lparr>ctl_da := ctl_da m @ align_pad (length (ctl_da m)) delta_bytes\<rparr>
      in case delta_size of
           DELTA_U8 \<Rightarrow> Inr (m1\<lparr>ctl_da := ctl_da m1 @ Copy 1 ds\<rparr>)
         | DELTA_U16 \<Rightarrow> Inr (m1\<lparr>ctl_da := ctl_da m1 @ Copy 2 ds\<rparr>)
         | DELTA_U32 \<Rightarrow> Inr (m1\<lparr>ctl_da := ctl_da m1 @ Copy 4 ds\<rparr>)
         | DELTA_U64 \<Rightarrow> Inl DeltaSizeAssert)"

text \<open>
  \<^verbatim>\<open>AddXs(xs)\<close>. The source reads \<^verbatim>\<open>xs[xs_size-1]\<close> first, so an empty \<open>xs\<close> is an
  error of the model.
\<close>

definition AddXs :: "Decls \<Rightarrow> 'v CsxManager \<Rightarrow> u64 list \<Rightarrow> csx_error + 'v CsxManager" where
  "AddXs D m xs =
     (if xs = [] then Inl XsEmpty
      else
        (let xs_size = length xs;
             last_col' = last xs;
             xs1 = DeltaEncode_csx (last_col m) xs;
             m1 = m\<lparr>last_col := last_col'\<rparr>;
             max' = (if xs_size > 1 then max_element (tl xs1) else 0);
             delta_size = getDeltaSize max';
             pat_id = push_bit (DeltaSize_index delta_size) 8 + PID_DELTA_BASE D
         in case unit_head D m1 (PID_DELTA_BASE D + pat_id) xs_size
                   (xs_size > 0 \<and> xs_size \<le> CTL_SIZE_MAX) xs_size of
              Inl e \<Rightarrow> Inl e
            | Inr m2 \<Rightarrow>
                (let m3 = m2\<lparr>ctl_da := da_put_ul (ctl_da m2) (hd xs1)\<rparr>
                 in if xs_size > 1 then put_deltas m3 delta_size (tl xs1) else Inr m3)))"

text \<open>\<^verbatim>\<open>AddPattern(elem, jmp)\<close>; it is only called on an element that has a pattern.\<close>

definition AddPattern ::
  "Decls \<Rightarrow> 'v CsxManager \<Rightarrow> 'v SpmRowElem \<Rightarrow> u64 \<Rightarrow> csx_error + 'v CsxManager" where
  "AddPattern D m elem jmp =
     (case elem of
        Elem x v \<Rightarrow> Inr m
      | PatElem x p vs \<Rightarrow>
          (let pat_size = GetSize p;
               pat_id = GetPatternId D p;
               sz = pat_size + (if jmp \<noteq> 0 then 1 else 0)
           in case unit_head D m pat_id pat_size (sz \<le> CTL_SIZE_MAX) sz of
                Inl e \<Rightarrow> Inl e
              | Inr m1 \<Rightarrow>
                  (let ujmp = (if jmp \<noteq> 0 then jmp else x - last_col m1);
                       m2 = m1\<lparr>ctl_da := da_put_ul (ctl_da m1) ujmp\<rparr>
                   in Inr (m2\<lparr>last_col := ColIncreaseJmp D p (spm_type (spm m2)) x\<rparr>))))"

text \<open>\<^verbatim>\<open>PreparePat\<close>: flushes the pending columns; the live code always returns 0.\<close>

definition PreparePat ::
  "Decls \<Rightarrow> 'v CsxManager \<Rightarrow> u64 list \<Rightarrow> csx_error + (u64 \<times> 'v CsxManager)" where
  "PreparePat D m xs =
     (if length xs \<noteq> 0
      then (case AddXs D m xs of Inl e \<Rightarrow> Inl e | Inr m1 \<Rightarrow> Inr (0, m1))
      else Inr (0, m))"

text \<open>
  \<^verbatim>\<open>values_[values_idx_++] = v\<close>. The array has \<open>nr_nzeros\<close> slots; a store past its
  end is an error of the model.
\<close>

definition put_value :: "'v CsxManager \<Rightarrow> 'v \<Rightarrow> csx_error + 'v CsxManager" where
  "put_value m v =
     (if values_idx m < length (values_buf m)
      then Inr (m\<lparr>values_buf := (values_buf m)[values_idx m := Some v], values_idx := values_idx m + 1\<rparr>)
      else Inl ValuesOverrun)"

fun put_values :: "'v CsxManager \<Rightarrow> 'v list \<Rightarrow> csx_error + 'v CsxManager" where
  "put_values m [] = Inr m"
| "put_values m (v # vs) =
     (case put_value m v of Inl e \<Rightarrow> Inl e | Inr m1 \<Rightarrow> put_values m1 vs)"

text \<open>
  The element loop of \<^verbatim>\<open>DoRow\<close>; \<open>xs\<close> is the local vector of pending columns. The
  values of a pattern are read from \<^verbatim>\<open>vals[0 .. GetSize()-1]\<close>; an array shorter than
  that is an error of the model.
\<close>

fun DoRow_loop ::
  "Decls \<Rightarrow> 'v CsxManager \<Rightarrow> u64 list \<Rightarrow> 'v SpmRowElem list \<Rightarrow>
   csx_error + ('v CsxManager \<times> u64 list)" where
  "DoRow_loop D m xs [] = Inr (m, xs)"
| "DoRow_loop D m xs (PatElem x p vs # rest) =
     (case PreparePat D m xs of
        Inl e \<Rightarrow> Inl e
      | Inr (jmp, m1) \<Rightarrow>
          (case AddPattern D m1 (PatElem x p vs) jmp of
             Inl e \<Rightarrow> Inl e
           | Inr m2 \<Rightarrow>
               if length vs < GetSize p then Inl ValuesOverrun
               else
                 (case put_values m2 (take (GetSize p) vs) of
                    Inl e \<Rightarrow> Inl e
                  | Inr m3 \<Rightarrow> DoRow_loop D m3 [] rest)))"
| "DoRow_loop D m xs (Elem x v # rest) =
     (if \<not> length xs \<le> CTL_SIZE_MAX then Inl UnitSizeAssert
      else
        (case (if length xs = CTL_SIZE_MAX
               then (case AddXs D m xs of Inl e \<Rightarrow> Inl e | Inr m1 \<Rightarrow> Inr (m1, []))
               else Inr (m, xs)) of
           Inl e \<Rightarrow> Inl e
         | Inr (m1, xs1) \<Rightarrow>
             (case put_value m1 v of
                Inl e \<Rightarrow> Inl e
              | Inr m2 \<Rightarrow> DoRow_loop D m2 (xs1 @ [x]) rest)))"

definition DoRow :: "Decls \<Rightarrow> 'v CsxManager \<Rightarrow> 'v SpmRowElem list \<Rightarrow> csx_error + 'v CsxManager" where
  "DoRow D m row =
     (case DoRow_loop D (m\<lparr>last_col := 1\<rparr>) [] row of
        Inl e \<Rightarrow> Inl e
      | Inr (m1, xs) \<Rightarrow> if length xs > 0 then AddXs D m1 xs else Inr m1)"

text \<open>The row loop of \<^verbatim>\<open>MakeCsx\<close>.\<close>

fun MakeCsx_rows ::
  "Decls \<Rightarrow> 'v CsxManager \<Rightarrow> 'v SpmRowElem list list \<Rightarrow> csx_error + 'v CsxManager" where
  "MakeCsx_rows D m [] = Inr m"
| "MakeCsx_rows D m (row # rest) =
     (if row = []
      then
        (if new_row m = False then MakeCsx_rows D (m\<lparr>new_row := True\<rparr>) rest
         else MakeCsx_rows D (m\<lparr>empty_rows := empty_rows m + 1\<rparr>) rest)
      else
        (case DoRow D m row of
           Inl e \<Rightarrow> Inl e
         | Inr m1 \<Rightarrow> MakeCsx_rows D (m1\<lparr>new_row := True\<rparr>) rest))"

record 'v csx_double_t =
  csx_nnz :: nat
  csx_nrows :: nat
  csx_ncols :: nat
  csx_row_start :: nat
  csx_ctl_size :: nat
  csx_ctl :: "u8 list"
  csx_values :: "'v option list"

text \<open>
  The state reached when the row loop of \<^verbatim>\<open>MakeCsx\<close> is left: the arrays are
  allocated, the counters reset, and every row assembled.
\<close>

definition MakeCsx_assemble :: "Decls \<Rightarrow> 'v CsxManager \<Rightarrow> csx_error + 'v CsxManager" where
  "MakeCsx_assemble D m =
     MakeCsx_rows D
       (m\<lparr>values_buf := replicate (nr_nzeros (spm m)) None, ctl_da := [], ctl_units := [],
          values_idx := 0, new_row := False\<rparr>)
       (rows (spm m))"

definition MakeCsx ::
  "Decls \<Rightarrow> 'v CsxManager \<Rightarrow> csx_error + ('v csx_double_t \<times> 'v CsxManager)" where
  "MakeCsx D m =
     (case MakeCsx_assemble D m of
        Inl e \<Rightarrow> Inl e
      | Inr m1 \<Rightarrow>
          if values_idx m1 \<noteq> nr_nzeros (spm m1) then Inl ValuesCountAssert
          else
            Inr (\<lparr>csx_nnz = nr_nzeros (spm m1), csx_nrows = GetNrRows (spm m1),
                  csx_ncols = nr_cols (spm m1), csx_row_start = row_start (spm m1),
                  csx_ctl_size = length (ctl_da m1), csx_ctl = ctl_da m1,
                  csx_values = values_buf m1\<rparr>,
                 m1\<lparr>ctl_da := [], values_buf := [], values_idx := 0\<rparr>))"


section \<open>The CSX manager template (CsxManager.hpp)\<close>

text \<open>
  The members of the class template that \<^verbatim>\<open>GetFlag\<close> and \<^verbatim>\<open>UpdateNewRow\<close> read and
  write.
\<close>

record PatInfo_hpp =
  flag_hpp :: u8
  npatterns_hpp :: nat
  nr_hpp :: nat

record CsxManager_hpp =
  patterns_hpp :: "int \<rightharpoonup> PatInfo_hpp"
  flag_avail_hpp :: u8
  row_jmps_hpp :: bool
  new_row_hpp :: bool
  empty_rows_hpp :: u64


definition UpdateNewRow_hpp :: "CsxManager_hpp \<Rightarrow> (bool \<times> u64) \<times> CsxManager_hpp" where
  "UpdateNewRow_hpp m =
     (if new_row_hpp m
      then
        (let m1 = m\<lparr>new_row_hpp := False\<rparr>
         in if empty_rows_hpp m1 \<noteq> 0
            then ((True, empty_rows_hpp m1 + 1), m1\<lparr>empty_rows_hpp := 0, row_jmps_hpp := True\<rparr>)
            else ((True, 0), m1))
      else ((False, 0), m))"

text \<open>
  Modelled from the spec: \<^verbatim>\<open>CtlBuilder::AppendCtlHead\<close> is in a missing header. It
  writes the two bytes \<open>flag | (nr ? CTL_NR : 0) | (rowjump ? CTL_RJMP : 0)\<close> and
  \<open>size\<close>; if \<open>rowjump \<noteq> 0\<close> the varint \<open>rowjump\<close>; then \<open>ucol\<close>, as a fixed-width
  integer of \<open>ucol_size\<close> bytes (aligned, padded with zeros) under full column indices
  and as a varint otherwise.
\<close>

definition AppendCtlHead ::
  "u8 list \<Rightarrow> bool \<Rightarrow> u64 \<Rightarrow> u8 \<Rightarrow> u8 \<Rightarrow> u64 \<Rightarrow> nat \<Rightarrow> bool \<Rightarrow> u8 list" where
  "AppendCtlHead ctl nr_bit rowjmp flg sz ucol ucol_size full_colind =
     (let f1 = (if nr_bit then set_bit_u8 flg CTL_NR_BIT else flg);
          f2 = (if rowjmp \<noteq> 0 then set_bit_u8 f1 CTL_RJMP_BIT else f1);
          ctl1 = ctl @ [f2, sz];
          ctl2 = (if rowjmp \<noteq> 0 then da_put_ul ctl1 rowjmp else ctl1)
      in if full_colind
         then ctl2 @ align_pad (length ctl2) ucol_size @ le_bytes ucol_size ucol
         else da_put_ul ctl2 ucol)"

section \<open>Delta run-length encoding (drle.cc)\<close>

text \<open>\<^verbatim>\<open>struct RLE<T>\<close> with \<open>T = uint64_t\<close>; \<^verbatim>\<open>freq\<close> is a \<^verbatim>\<open>long\<close>.\<close>

record RLE =
  freq :: int
  val :: u64

text \<open>
  \<^verbatim>\<open>DeltaEncode(input)\<close>: the first entry is kept, every later entry becomes its
  difference to its predecessor. The source reads \<^verbatim>\<open>*in\<close> before any test, so it is
  only called on a non-empty vector; the model maps the empty one to itself.
\<close>

fun DeltaEncode_loop :: "u64 \<Rightarrow> u64 list \<Rightarrow> u64 list" where
  "DeltaEncode_loop prev [] = []"
| "DeltaEncode_loop prev (cur # rest) = (cur - prev) # DeltaEncode_loop cur rest"

definition DeltaEncode :: "u64 list \<Rightarrow> u64 list" where
  "DeltaEncode input = (case input of [] \<Rightarrow> [] | x # rest \<Rightarrow> x # DeltaEncode_loop x rest)"

text \<open>\<^verbatim>\<open>RLEncode(input)\<close>, on a non-empty vector as well.\<close>

fun RLEncode_loop :: "RLE \<Rightarrow> u64 list \<Rightarrow> RLE list" where
  "RLEncode_loop rle [] = [rle]"
| "RLEncode_loop rle (cur # rest) =
     (if val rle \<noteq> cur then rle # RLEncode_loop \<lparr>freq = 1, val = cur\<rparr> rest
      else RLEncode_loop (rle\<lparr>freq := freq rle + 1\<rparr>) rest)"

definition RLEncode :: "u64 list \<Rightarrow> RLE list" where
  "RLEncode input =
     (case input of [] \<Rightarrow> [] | x # rest \<Rightarrow> RLEncode_loop \<lparr>freq = 1, val = x\<rparr> rest)"

text \<open>
  Modelled from the spec: \<^verbatim>\<open>DeltaRLE::Stats\<close> (missing header) maps a delta value to
  its coverage \<open>nnz\<close> and its instance count \<open>npatterns\<close>. The \<^verbatim>\<open>std::map\<close> is an
  association list with distinct keys; \<^verbatim>\<open>stats[k]\<close> creates a zero entry for a new
  key.
\<close>

record StatsVal =
  nnz :: nat
  npatterns :: nat

type_synonym Stats = "(u64 \<times> StatsVal) list"

definition stats_get :: "Stats \<Rightarrow> u64 \<Rightarrow> StatsVal" where
  "stats_get st k = (case map_of st k of None \<Rightarrow> \<lparr>nnz = 0, npatterns = 0\<rparr> | Some sv \<Rightarrow> sv)"

text \<open>\<^verbatim>\<open>stats[k].nnz += n; stats[k].npatterns++;\<close>\<close>

definition stats_credit :: "Stats \<Rightarrow> u64 \<Rightarrow> nat \<Rightarrow> Stats" where
  "stats_credit st k n =
     AList.update k ((stats_get st k)\<lparr>nnz := nnz (stats_get st k) + n,
                                       npatterns := npatterns (stats_get st k) + 1\<rparr>) st"

text \<open>
  The state of a \<^verbatim>\<open>DRLE_Manager\<close>. \<open>xforms_ignore\<close> is the bitset of ignored orders,
  \<open>stats_map\<close> the member \<^verbatim>\<open>stats\<close> (a map from order to \<open>Stats\<close>, in key order).
  \<open>newrow_max\<close> is not a member of the class: it is the number of elements that the
  vector \<^verbatim>\<open>newrow\<close> of the encoder can hold; \<^verbatim>\<open>push_back\<close> on a vector of that size
  throws (at \<^verbatim>\<open>max_size()\<close>, or earlier when the memory is exhausted). The model lets
  an allocation fail only where the number of allocations is not bounded by the input,
  which is the \<^verbatim>\<open>while\<close> loop of \<^verbatim>\<open>doEncode\<close>.
\<close>

record 'v DRLE_Manager =
  d_spm :: "'v SPM"
  min_limit :: int
  max_limit :: int
  min_perc :: real
  xforms_ignore :: "SpmIterOrder set"
  stats_map :: "(SpmIterOrder \<times> Stats) list"
  DeltasToEncode :: "SpmIterOrder \<Rightarrow> u64 set"
  newrow_max :: nat

text \<open>The loop of \<^verbatim>\<open>updateStatsBlock\<close> over the runs; \<open>unit_start\<close> is its running column.\<close>

fun updateStatsBlock_loop :: "nat \<Rightarrow> u64 \<Rightarrow> RLE list \<Rightarrow> Stats \<Rightarrow> Stats" where
  "updateStatsBlock_loop block_align unit_start [] stats = stats"
| "updateStatsBlock_loop block_align unit_start (rle # rest) stats =
     (let us1 = unit_start + val rle;
          stats1 =
            (if val rle = 1
             then
               (let nr_elem0 = nat (freq rle + 1);
                    skip_front = (if us1 = 1 then 0 else unat ((us1 - 2) mod of_nat block_align));
                    nr_elem = (if nr_elem0 > skip_front then nr_elem0 - skip_front else 0);
                    other_dim = nr_elem div block_align
                in if other_dim \<ge> 2
                   then stats_credit stats (of_nat other_dim) (other_dim * block_align)
                   else stats)
             else stats)
      in updateStatsBlock_loop block_align (us1 + val rle * of_int (freq rle - 1)) rest stats1)"

definition updateStatsBlock :: "u64 list \<Rightarrow> Stats \<Rightarrow> nat \<Rightarrow> Stats" where
  "updateStatsBlock xs stats block_align =
     (if length xs = 0 then stats
      else updateStatsBlock_loop block_align 0 (RLEncode (DeltaEncode xs)) stats)"

text \<open>
  \<^verbatim>\<open>updateStats(xs, stats)\<close>. The result is the new table; \<^verbatim>\<open>xs\<close> is empty after every
  call (it is cleared, or was empty), which the callers below write out.
\<close>

definition updateStats :: "'v DRLE_Manager \<Rightarrow> u64 list \<Rightarrow> Stats \<Rightarrow> Stats" where
  "updateStats m xs stats =
     (let block_align = isBlockType (spm_type (d_spm m))
      in if block_align \<noteq> 0 then updateStatsBlock xs stats block_align
         else if length xs = 0 then stats
         else fold (\<lambda>rle st. if freq rle \<ge> min_limit m
                               then stats_credit st (val rle) (nat (freq rle))
                               else st)
                   (RLEncode (DeltaEncode xs)) stats)"

text \<open>The element loop of \<^verbatim>\<open>generateStats\<close> for one row, and the flush at the row's end.\<close>

fun generateStats_elems ::
  "'v DRLE_Manager \<Rightarrow> u64 list \<Rightarrow> Stats \<Rightarrow> 'v SpmRowElem list \<Rightarrow> u64 list \<times> Stats" where
  "generateStats_elems m xs stats [] = (xs, stats)"
| "generateStats_elems m xs stats (Elem x v # rest) = generateStats_elems m (xs @ [x]) stats rest"
| "generateStats_elems m xs stats (PatElem x p vs # rest) =
     generateStats_elems m [] (updateStats m xs stats) rest"

definition generateStats_row :: "'v DRLE_Manager \<Rightarrow> Stats \<Rightarrow> 'v SpmRowElem list \<Rightarrow> Stats" where
  "generateStats_row m stats row =
     (case generateStats_elems m [] stats row of (xs, stats1) \<Rightarrow> updateStats m xs stats1)"

definition generateStats :: "'v DRLE_Manager \<Rightarrow> Stats" where
  "generateStats m = fold (\<lambda>row stats. generateStats_row m stats row) (rows (d_spm m)) []"

subsection \<open>The encoder\<close>

datatype drle_error =
    BadAlloc
  | ReadPastEnd
  | ValuesLeftAssert
  | PopEmpty
  | DivByZero

text \<open>
  The \<^verbatim>\<open>while (rle.freq >= min_limit)\<close> loop of \<^verbatim>\<open>doEncode\<close> for one run of delta \<open>v\<close>.
  The state is \<^verbatim>\<open>rle.freq\<close>, \<^verbatim>\<open>col\<close>, the value iterator \<^verbatim>\<open>vi\<close> (an index into \<open>vs\<close>)
  and \<^verbatim>\<open>newrow\<close>. Every round first runs \<^verbatim>\<open>newrow.push_back(elem)\<close>, which throws when
  the vector holds \<open>cap\<close> elements. A negative chunk is converted to a huge
  \<^verbatim>\<open>uint64_t\<close>, for which \<^verbatim>\<open>new double[freq]\<close> throws. A round with a chunk of 0 leaves
  \<^verbatim>\<open>rle.freq\<close> as it is, so the loop ends only when \<^verbatim>\<open>push_back\<close> fails.
\<close>

definition pattern_chunk ::
  "SpmIterOrder \<Rightarrow> 'v list \<Rightarrow> u64 \<Rightarrow> int \<Rightarrow> u64 \<Rightarrow> nat \<Rightarrow> 'v SpmRowElem" where
  "pattern_chunk t vs v chunk col vi =
     PatElem (col + v) (DeltaRLE (nat chunk) v t) (take (nat chunk) (drop vi vs))"

function doEncode_while ::
  "nat \<Rightarrow> int \<Rightarrow> int \<Rightarrow> SpmIterOrder \<Rightarrow> 'v list \<Rightarrow> u64 \<Rightarrow>
   int \<times> u64 \<times> nat \<times> 'v SpmRowElem list \<Rightarrow>
   drle_error + (int \<times> u64 \<times> nat \<times> 'v SpmRowElem list)" where
  "doEncode_while cap min_l max_l t vs v (f, col, vi, newrow) =
     (if f \<ge> min_l
      then
        (if cap \<le> length newrow then Inl BadAlloc
         else if min max_l f < 0 then Inl BadAlloc
         else if length vs < vi + nat (min max_l f) then Inl ReadPastEnd
         else doEncode_while cap min_l max_l t vs v
                (f - min max_l f, col + v + v * of_int (min max_l f - 1),
                 vi + nat (min max_l f),
                 newrow @ [pattern_chunk t vs v (min max_l f) col vi]))
      else Inr (f, col, vi, newrow))"
  by pat_completeness auto
termination
  by (relation "measure (\<lambda>(cap, min_l, max_l, t, vs, v, f, col, vi, newrow). cap - length newrow)")
     auto

declare doEncode_while.simps [simp del]

text \<open>The \<^verbatim>\<open>for\<close> loop of \<^verbatim>\<open>doEncode\<close> that adds \<open>n\<close> individual elements, one per step of \<open>v\<close>.\<close>

fun doEncode_plain ::
  "u64 \<Rightarrow> nat \<Rightarrow> 'v list \<Rightarrow> u64 \<times> nat \<times> 'v SpmRowElem list \<Rightarrow>
   drle_error + (u64 \<times> nat \<times> 'v SpmRowElem list)" where
  "doEncode_plain v 0 vs st = Inr st"
| "doEncode_plain v (Suc n) vs (col, vi, newrow) =
     (if vi < length vs
      then doEncode_plain v n vs (col + v, Suc vi, newrow @ [Elem (col + v) (vs ! vi)])
      else Inl ReadPastEnd)"

text \<open>The body of the \<^verbatim>\<open>FOREACH\<close> of \<^verbatim>\<open>doEncode\<close> for one run.\<close>

definition doEncode_rle ::
  "'v DRLE_Manager \<Rightarrow> 'v list \<Rightarrow> RLE \<Rightarrow> u64 \<times> nat \<times> 'v SpmRowElem list \<Rightarrow>
   drle_error + (u64 \<times> nat \<times> 'v SpmRowElem list)" where
  "doEncode_rle m vs rle st =
     (case (if val rle \<in> DeltasToEncode m (spm_type (d_spm m))
            then doEncode_while (newrow_max m) (min_limit m) (max_limit m) (spm_type (d_spm m)) vs
                   (val rle) (freq rle, st)
            else Inr (freq rle, st)) of
        Inl e \<Rightarrow> Inl e
      | Inr (f, st1) \<Rightarrow> doEncode_plain (val rle) (nat f) vs st1)"

fun doEncode_rles ::
  "'v DRLE_Manager \<Rightarrow> 'v list \<Rightarrow> RLE list \<Rightarrow> u64 \<times> nat \<times> 'v SpmRowElem list \<Rightarrow>
   drle_error + (u64 \<times> nat \<times> 'v SpmRowElem list)" where
  "doEncode_rles m vs [] st = Inr st"
| "doEncode_rles m vs (rle # rest) st =
     (case doEncode_rle m vs rle st of
        Inl e \<Rightarrow> Inl e
      | Inr st1 \<Rightarrow> doEncode_rles m vs rest st1)"

text \<open>C-style division of \<^verbatim>\<open>long\<close>s, which truncates towards zero.\<close>

definition long_div :: "int \<Rightarrow> int \<Rightarrow> int" where
  "long_div a b = sgn a * sgn b * (\<bar>a\<bar> div \<bar>b\<bar>)"

text \<open>\<open>n\<close> individual elements at the columns \<open>start + i * step\<close>, with the next \<open>n\<close> values.\<close>

definition plain_elems ::
  "u64 \<Rightarrow> u64 \<Rightarrow> nat \<Rightarrow> 'v list \<Rightarrow> nat \<Rightarrow> 'v SpmRowElem list" where
  "plain_elems start step n vs vi =
     map (\<lambda>i. Elem (start + of_nat i * step) (vs ! (vi + i))) [0..<n]"

text \<open>
  The body of the \<^verbatim>\<open>FOREACH\<close> of \<^verbatim>\<open>doEncodeBlock\<close> for one run, with alignment
  \<open>block_align\<close>. Counts are naturals; columns are 64-bit words.
\<close>

definition doEncodeBlock_rle ::
  "'v DRLE_Manager \<Rightarrow> nat \<Rightarrow> 'v list \<Rightarrow> RLE \<Rightarrow> u64 \<times> nat \<times> 'v SpmRowElem list \<Rightarrow>
   drle_error + (u64 \<times> nat \<times> 'v SpmRowElem list)" where
  "doEncodeBlock_rle m block_align vs rle st =
     (case st of (col0, vi0, newrow0) \<Rightarrow>
      (let col = col0 + val rle;
           skip_front = (if col = 1 then 0
                         else (let sf = unat ((col - 2) mod of_nat block_align)
                               in if sf \<noteq> 0 then block_align - sf else sf));
           nr_elem0 = (if col = 1 then nat (freq rle) else nat (freq rle + 1));
           nr_elem1 = (if nr_elem0 > skip_front then nr_elem0 - skip_front else 0);
           skip_back = nr_elem1 mod block_align;
           nr_elem = (if nr_elem1 > skip_back then nr_elem1 - skip_back else 0);
           col_end = col + val rle * of_int (freq rle - 1)
       in if val rle = 1
             \<and> of_nat (nr_elem div block_align) \<in> DeltasToEncode m (spm_type (d_spm m))
             \<and> nr_elem \<ge> 2 * block_align
          then
            (if col \<noteq> 1 \<and> (newrow0 = [] \<or> vi0 = 0) then Inl PopEmpty
             else
               (let rle_start = (if col \<noteq> 1 then col - 1 else col);
                    newrow1 = (if col \<noteq> 1 then butlast newrow0 else newrow0);
                    vi1 = (if col \<noteq> 1 then vi0 - 1 else vi0);
                    max_limit' = unat (word_of_int
                       (long_div (max_limit m) (2 * int block_align) * (2 * int block_align)) :: u64)
                in if max_limit' = 0 then Inl DivByZero
                   else
                     (let nr_blocks0 = nr_elem div max_limit';
                          nr_elem_block = min max_limit' nr_elem;
                          nr_blocks = (if nr_blocks0 = 0 then 1 else nr_blocks0);
                          skip_back' = (if nr_blocks0 = 0 then skip_back
                                        else skip_back + (nr_elem - nr_elem_block * nr_blocks0));
                          vi2 = vi1 + skip_front;
                          vi3 = vi2 + nr_blocks * nr_elem_block;
                          vi4 = vi3 + skip_back'
                      in if length vs < vi4 then Inl ReadPastEnd
                         else
                           Inr (col_end, vi4,
                                newrow1
                                @ plain_elems rle_start 1 skip_front vs vi1
                                @ map (\<lambda>i. PatElem (rle_start + of_nat skip_front + of_nat (i * nr_elem_block))
                                               (BlockRLE nr_elem_block (nr_elem_block div block_align)
                                                  (spm_type (d_spm m)))
                                               (take nr_elem_block (drop (vi2 + i * nr_elem_block) vs)))
                                      [0..<nr_blocks]
                                @ plain_elems (rle_start + of_nat skip_front + of_nat (nr_elem_block * nr_blocks))
                                    1 skip_back' vs vi3))))
          else
            (if length vs < vi0 + nat (freq rle) then Inl ReadPastEnd
             else Inr (col_end, vi0 + nat (freq rle),
                       newrow0 @ plain_elems col (val rle) (nat (freq rle)) vs vi0))))"

fun doEncodeBlock_rles ::
  "'v DRLE_Manager \<Rightarrow> nat \<Rightarrow> 'v list \<Rightarrow> RLE list \<Rightarrow> u64 \<times> nat \<times> 'v SpmRowElem list \<Rightarrow>
   drle_error + (u64 \<times> nat \<times> 'v SpmRowElem list)" where
  "doEncodeBlock_rles m block_align vs [] st = Inr st"
| "doEncodeBlock_rles m block_align vs (rle # rest) st =
     (case doEncodeBlock_rle m block_align vs rle st of
        Inl e \<Rightarrow> Inl e
      | Inr st1 \<Rightarrow> doEncodeBlock_rles m block_align vs rest st1)"

definition doEncodeBlock ::
  "'v DRLE_Manager \<Rightarrow> u64 list \<Rightarrow> 'v list \<Rightarrow> 'v SpmRowElem list \<Rightarrow>
   drle_error + 'v SpmRowElem list" where
  "doEncodeBlock m xs vs newrow =
     (case doEncodeBlock_rles m (isBlockType (spm_type (d_spm m))) vs
             (RLEncode (DeltaEncode xs)) (0, 0, newrow) of
        Inl e \<Rightarrow> Inl e
      | Inr (col, vi, newrow1) \<Rightarrow>
          if vi \<noteq> length vs then Inl ValuesLeftAssert else Inr newrow1)"

text \<open>\<^verbatim>\<open>doEncode(xs, vs, newrow)\<close>: the result is the extended \<^verbatim>\<open>newrow\<close>.\<close>

definition doEncode ::
  "'v DRLE_Manager \<Rightarrow> u64 list \<Rightarrow> 'v list \<Rightarrow> 'v SpmRowElem list \<Rightarrow>
   drle_error + 'v SpmRowElem list" where
  "doEncode m xs vs newrow =
     (if isBlockType (spm_type (d_spm m)) \<noteq> 0 then doEncodeBlock m xs vs newrow
      else
        (case doEncode_rles m vs (RLEncode (DeltaEncode xs)) (0, 0, newrow) of
           Inl e \<Rightarrow> Inl e
         | Inr (col, vi, newrow1) \<Rightarrow>
             if vi \<noteq> length vs then Inl ValuesLeftAssert else Inr newrow1))"

text \<open>The element loop of \<^verbatim>\<open>EncodeRow\<close> with its vectors \<open>xs\<close> and \<open>vs\<close>.\<close>

fun EncodeRow_loop ::
  "'v DRLE_Manager \<Rightarrow> u64 list \<Rightarrow> 'v list \<Rightarrow> 'v SpmRowElem list \<Rightarrow> 'v SpmRowElem list \<Rightarrow>
   drle_error + (u64 list \<times> 'v list \<times> 'v SpmRowElem list)" where
  "EncodeRow_loop m xs vs newrow [] = Inr (xs, vs, newrow)"
| "EncodeRow_loop m xs vs newrow (Elem x v # rest) =
     EncodeRow_loop m (xs @ [x]) (vs @ [v]) newrow rest"
| "EncodeRow_loop m xs vs newrow (PatElem x p pvs # rest) =
     (if length xs \<noteq> 0
      then
        (case doEncode m xs vs newrow of
           Inl e \<Rightarrow> Inl e
         | Inr newrow1 \<Rightarrow> EncodeRow_loop m [] [] (newrow1 @ [PatElem x p pvs]) rest)
      else EncodeRow_loop m xs vs (newrow @ [PatElem x p pvs]) rest)"

definition EncodeRow ::
  "'v DRLE_Manager \<Rightarrow> 'v SpmRowElem list \<Rightarrow> 'v SpmRowElem list \<Rightarrow>
   drle_error + 'v SpmRowElem list" where
  "EncodeRow m row newrow =
     (case EncodeRow_loop m [] [] newrow row of
        Inl e \<Rightarrow> Inl e
      | Inr (xs, vs, newrow1) \<Rightarrow>
          if length xs \<noteq> 0 then doEncode m xs vs newrow1 else Inr newrow1)"

text \<open>The rows of a partition encoded one after the other, as the row loop of \<^verbatim>\<open>Encode\<close> does.\<close>

fun EncodeRows ::
  "'v DRLE_Manager \<Rightarrow> 'v SpmRowElem list list \<Rightarrow> drle_error + 'v SpmRowElem list list" where
  "EncodeRows m [] = Inr []"
| "EncodeRows m (row # rest) =
     (case EncodeRow m row [] of
        Inl e \<Rightarrow> Inl e
      | Inr out_row \<Rightarrow>
          (case EncodeRows m rest of
             Inl e \<Rightarrow> Inl e
           | Inr out_rows \<Rightarrow> Inr (out_row # out_rows)))"

text \<open>\<^verbatim>\<open>addIgnore(type)\<close> sets the bit of the order.\<close>

definition addIgnore :: "'v DRLE_Manager \<Rightarrow> SpmIterOrder \<Rightarrow> 'v DRLE_Manager" where
  "addIgnore m t = m\<lparr>xforms_ignore := insert t (xforms_ignore m)\<rparr>"

text \<open>\<^verbatim>\<open>getTypeScore(type)\<close>: the difference is taken in \<^verbatim>\<open>uint64_t\<close>.\<close>

definition getTypeScore :: "'v DRLE_Manager \<Rightarrow> SpmIterOrder \<Rightarrow> u64" where
  "getTypeScore m t =
     (case map_of (stats_map m) t of
        None \<Rightarrow> 0
      | Some sp \<Rightarrow>
          (of_nat (sum_list (map (\<lambda>e. nnz (snd e)) sp)) :: u64)
            - of_nat (sum_list (map (\<lambda>e. npatterns (snd e)) sp)))"

text \<open>\<^verbatim>\<open>chooseType()\<close>: the first order, in key order, with the largest positive score.\<close>

fun chooseType_loop ::
  "'v DRLE_Manager \<Rightarrow> SpmIterOrder \<Rightarrow> u64 \<Rightarrow> (SpmIterOrder \<times> Stats) list \<Rightarrow> SpmIterOrder" where
  "chooseType_loop m ret max_out [] = ret"
| "chooseType_loop m ret max_out (e # rest) =
     (let out = getTypeScore m (fst e)
      in if out > max_out then chooseType_loop m (fst e) out rest
         else chooseType_loop m ret max_out rest)"

definition chooseType :: "'v DRLE_Manager \<Rightarrow> SpmIterOrder" where
  "chooseType m = chooseType_loop m NONE 0 (stats_map m)"

text \<open>
  \<^verbatim>\<open>Encode(type)\<close>. \<open>Transform\<close> is the iteration-order transform of the partition,
  whose code is not in the sources: it is a parameter. The builder replaces the rows
  of the partition by the encoded rows.
\<close>

definition Encode ::
  "(SpmIterOrder \<Rightarrow> 'v SPM \<Rightarrow> 'v SPM) \<Rightarrow> 'v DRLE_Manager \<Rightarrow> SpmIterOrder \<Rightarrow>
   drle_error + 'v DRLE_Manager" where
  "Encode Transform m type0 =
     (let t = (if type0 = NONE then chooseType m else type0)
      in if t = NONE then Inr m
         else
           (let oldtype = spm_type (d_spm m);
                m1 = m\<lparr>d_spm := Transform t (d_spm m)\<rparr>
            in case EncodeRows m1 (rows (d_spm m1)) of
                 Inl e \<Rightarrow> Inl e
               | Inr out_rows \<Rightarrow>
                   (let m2 = m1\<lparr>d_spm := (d_spm m1)\<lparr>rows := out_rows\<rparr>\<rparr>;
                        m3 = m2\<lparr>d_spm := Transform oldtype (d_spm m2)\<rparr>
                    in Inr (addIgnore m3 t))))"

subsection \<open>The decoder\<close>

text \<open>\<^verbatim>\<open>doDecode(elem, newrow)\<close>: the elements of a pattern, one per step of \<^verbatim>\<open>getNextX\<close>.\<close>

fun doDecode_loop :: "Pattern \<Rightarrow> 'v list \<Rightarrow> nat \<Rightarrow> nat \<Rightarrow> u64 \<Rightarrow> 'v SpmRowElem list" where
  "doDecode_loop p pvs i 0 cur_x = []"
| "doDecode_loop p pvs i (Suc n) cur_x =
     Elem cur_x (pvs ! i) # doDecode_loop p pvs (Suc i) n (getNextX p cur_x)"

definition doDecode :: "'v SpmRowElem \<Rightarrow> 'v SpmRowElem list \<Rightarrow> 'v SpmRowElem list" where
  "doDecode elem newrow =
     (case elem of
        Elem x v \<Rightarrow> newrow
      | PatElem x p pvs \<Rightarrow> newrow @ doDecode_loop p pvs 0 (GetSize p) x)"

fun DecodeRow :: "'v DRLE_Manager \<Rightarrow> 'v SpmRowElem list \<Rightarrow> 'v SpmRowElem list \<Rightarrow> 'v SpmRowElem list" where
  "DecodeRow m [] newrow = newrow"
| "DecodeRow m (Elem x v # rest) newrow = DecodeRow m rest (newrow @ [Elem x v])"
| "DecodeRow m (PatElem x p pvs # rest) newrow =
     (if pat_type p = spm_type (d_spm m) then DecodeRow m rest (doDecode (PatElem x p pvs) newrow)
      else DecodeRow m rest (newrow @ [PatElem x p pvs]))"

definition Decode ::
  "(SpmIterOrder \<Rightarrow> 'v SPM \<Rightarrow> 'v SPM) \<Rightarrow> 'v DRLE_Manager \<Rightarrow> SpmIterOrder \<Rightarrow> 'v DRLE_Manager" where
  "Decode Transform m t =
     (if t = NONE then m
      else
        (let oldtype = spm_type (d_spm m);
             m1 = m\<lparr>d_spm := Transform t (d_spm m)\<rparr>;
             out_rows = map (\<lambda>row. DecodeRow m1 row []) (rows (d_spm m1));
             m2 = m1\<lparr>d_spm := (d_spm m1)\<lparr>rows := out_rows\<rparr>\<rparr>
         in m2\<lparr>d_spm := Transform oldtype (d_spm m2)\<rparr>))"

subsection \<open>The planner\<close>

text \<open>
  The body of the \<^verbatim>\<open>for\<close> loop of \<^verbatim>\<open>genAllStats\<close> for the order \<open>t\<close>. The table
  \<^verbatim>\<open>SpmTypes\<close> (missing) maps an index to its enumerator, which is the index itself.
  The filter compares the coverage fraction with \<open>min_perc\<close>; the model does it in the
  reals, where the source uses \<^verbatim>\<open>double\<close>.
\<close>

definition genAllStats_type ::
  "(SpmIterOrder \<Rightarrow> 'v SPM \<Rightarrow> 'v SPM) \<Rightarrow> SpmIterOrder \<Rightarrow> 'v DRLE_Manager \<Rightarrow> 'v DRLE_Manager" where
  "genAllStats_type Transform t m =
     (if t \<in> xforms_ignore m then m
      else
        (let m1 = m\<lparr>d_spm := Transform t (d_spm m)\<rparr>;
             st = generateStats m1;
             m2 = m1\<lparr>d_spm := Transform HORIZONTAL (d_spm m1)\<rparr>;
             keep = filter (\<lambda>e. \<not> (real (nnz (snd e)) / real (nr_nzeros (d_spm m2)) < min_perc m2)) st
         in m2\<lparr>stats_map := AList.update t keep (stats_map m2),
               DeltasToEncode := (DeltasToEncode m2)(t := DeltasToEncode m2 t \<union> fst ` set keep)\<rparr>))"

definition genAllStats ::
  "(SpmIterOrder \<Rightarrow> 'v SPM \<Rightarrow> 'v SPM) \<Rightarrow> 'v DRLE_Manager \<Rightarrow> 'v DRLE_Manager" where
  "genAllStats Transform m =
     fold (genAllStats_type Transform) [HORIZONTAL..<XFORM_MAX] (m\<lparr>stats_map := []\<rparr>)"

text \<open>
  \<^verbatim>\<open>EncodeAll()\<close>: the planner loop. It has no bound of its own, so not returning is
  \<open>None\<close>; a round that fails ends it with the failure.
\<close>

partial_function (option) EncodeAll ::
  "(SpmIterOrder \<Rightarrow> 'v SPM \<Rightarrow> 'v SPM) \<Rightarrow> 'v DRLE_Manager \<Rightarrow> (drle_error + 'v DRLE_Manager) option" where
  "EncodeAll Transform m =
     (if chooseType (genAllStats Transform m) = NONE then Some (Inr (genAllStats Transform m))
      else
        (case Encode Transform (genAllStats Transform m) (chooseType (genAllStats Transform m)) of
           Inl e \<Rightarrow> Some (Inl e)
         | Inr m2 \<Rightarrow> EncodeAll Transform m2))"

declare EncodeAll.simps [code]

text \<open>The same loop cut off after \<open>n\<close> rounds: \<open>None\<close> when \<open>n\<close> rounds do not finish it.\<close>

fun EncodeAll_rounds ::
  "(SpmIterOrder \<Rightarrow> 'v SPM \<Rightarrow> 'v SPM) \<Rightarrow> nat \<Rightarrow> 'v DRLE_Manager \<Rightarrow>
   (drle_error + 'v DRLE_Manager) option" where
  "EncodeAll_rounds Transform 0 m = None"
| "EncodeAll_rounds Transform (Suc n) m =
     (if chooseType (genAllStats Transform m) = NONE then Some (Inr (genAllStats Transform m))
      else
        (case Encode Transform (genAllStats Transform m) (chooseType (genAllStats Transform m)) of
           Inl e \<Rightarrow> Some (Inl e)
         | Inr m2 \<Rightarrow> EncodeAll_rounds Transform n m2))"

section \<open>Notions used to state the properties of the assembler\<close>

text \<open>The size bytes of the units of a ctl stream, given the offsets of their headers.\<close>

definition unit_sizes :: "u8 list \<Rightarrow> nat list \<Rightarrow> nat list" where
  "unit_sizes ctl offs = map (\<lambda>off. unat (ctl ! (off + 1))) offs"

text \<open>The flags bytes of the units of a ctl stream.\<close>

definition unit_flags :: "u8 list \<Rightarrow> nat list \<Rightarrow> u8 list" where
  "unit_flags ctl offs = map (\<lambda>off. ctl ! off) offs"

text \<open>
  What \<open>UpdateNewRow\<close> does to a flags byte \<open>f\<close> in state \<open>m\<close>, and the bytes it
  appends.
\<close>

definition rj_flags :: "'v CsxManager \<Rightarrow> u8 \<Rightarrow> u8" where
  "rj_flags m f =
     (if new_row m
      then (if empty_rows m \<noteq> 0 then set_bit_u8 (set_bit_u8 f CTL_NR_BIT) CTL_RJMP_BIT
            else set_bit_u8 f CTL_NR_BIT)
      else f)"

definition rj_bytes :: "'v CsxManager \<Rightarrow> u8 list" where
  "rj_bytes m =
     (if new_row m \<and> empty_rows m \<noteq> 0 then da_put_ul [] (empty_rows m + 1) else [])"

text \<open>Every flag recorded in the pattern map respects the cap.\<close>

definition flags_inv :: "Decls \<Rightarrow> 'v CsxManager \<Rightarrow> bool" where
  "flags_inv D m = (\<forall>pid pinfo. patterns m pid = Some pinfo \<longrightarrow> unat (flag pinfo) \<le> CTL_PATTERNS_MAX D)"

text \<open>
  The values of a row grouped by unit, as the spec describes the walk of a row:
  plain elements accumulate (at most \<open>CTL_SIZE_MAX\<close> of them) and are flushed before a
  pattern and at the end of the row; a pattern is a unit of its own.
\<close>

fun row_groups :: "'v list \<Rightarrow> 'v SpmRowElem list \<Rightarrow> 'v list list" where
  "row_groups pend [] = (if pend = [] then [] else [pend])"
| "row_groups pend (PatElem x p vs # rest) =
     (if pend = [] then [] else [pend]) @ take (GetSize p) vs # row_groups [] rest"
| "row_groups pend (Elem x v # rest) =
     (if length pend = CTL_SIZE_MAX then pend # row_groups [v] rest
      else row_groups (pend @ [v]) rest)"

definition spm_groups :: "'v SPM \<Rightarrow> 'v list list" where
  "spm_groups s = concat (map (row_groups []) (rows s))"

definition spm_values :: "'v SPM \<Rightarrow> 'v list" where
  "spm_values s = concat (map (\<lambda>row. concat (map elem_vals row)) (rows s))"

text \<open>
  The invariants of the assembly: the units written so far have the sizes of the
  groups \<open>g\<close>, and the values written so far are \<open>vs\<close>.
\<close>

definition units_inv :: "'v CsxManager \<Rightarrow> 'v list list \<Rightarrow> bool" where
  "units_inv m g =
     (unit_sizes (ctl_da m) (ctl_units m) = map length g \<and>
      (\<forall>off \<in> set (ctl_units m). off + 1 < length (ctl_da m)))"

definition vals_inv :: "'v CsxManager \<Rightarrow> 'v list \<Rightarrow> bool" where
  "vals_inv m vs =
     (values_idx m = length vs \<and> values_idx m \<le> length (values_buf m) \<and>
      take (values_idx m) (values_buf m) = map Some vs)"


text \<open>
  The ctl stream of \<open>m\<close> relative to an earlier state \<open>m0\<close> of the same row: either no
  unit has been written since, or the first unit written since carries what
  \<open>UpdateNewRow\<close> did in \<open>m0\<close>, and the units \<open>offs\<close> after it have no row jump.
\<close>

definition ctl_same :: "'v CsxManager \<Rightarrow> 'v CsxManager \<Rightarrow> bool" where
  "ctl_same m0 m =
     (ctl_da m = ctl_da m0 \<and> ctl_units m = ctl_units m0 \<and> new_row m = new_row m0 \<and>
      empty_rows m = empty_rows m0)"

definition ctl_started :: "'v CsxManager \<Rightarrow> 'v CsxManager \<Rightarrow> bool" where
  "ctl_started m0 m =
     (\<exists>f sz rest offs.
        unat f \<le> 63 \<and>
        ctl_da m = ctl_da m0 @ [rj_flags m0 f, sz] @ rj_bytes m0 @ rest \<and>
        ctl_units m = ctl_units m0 @ length (ctl_da m0) # offs \<and>
        (\<forall>off \<in> set offs. off < length (ctl_da m) \<and> \<not> bit (ctl_da m ! off) CTL_RJMP_BIT) \<and>
        \<not> new_row m \<and> empty_rows m = (if new_row m0 then 0 else empty_rows m0))"



section \<open>Notions used to state the properties of the encoder\<close>

text \<open>The deltas that a list of runs stands for.\<close>

definition RLE_expand :: "RLE list \<Rightarrow> u64 list" where
  "RLE_expand rles = concat (map (\<lambda>r. replicate (nat (freq r)) (val r)) rles)"

text \<open>
  The delta encoding of a vector of columns, from the spec's words: the first column
  is kept (it is the difference to column 0), every later one is replaced by its
  difference to its predecessor.
\<close>

definition col_deltas :: "u64 list \<Rightarrow> u64 list" where
  "col_deltas xs = map (\<lambda>i. if i = 0 then xs ! 0 else xs ! i - xs ! (i - 1)) [0..<length xs]"

text \<open>
  The run-length encoding of a list: its maximal runs of equal entries, each with the
  entry and the length of the run.
\<close>

function max_runs :: "u64 list \<Rightarrow> RLE list" where
  "max_runs [] = []"
| "max_runs (d # ds) =
     \<lparr>freq = 1 + int (length (takeWhile (\<lambda>x. x = d) ds)), val = d\<rparr>
       # max_runs (dropWhile (\<lambda>x. x = d) ds)"
  by pat_completeness auto
termination
  by (relation "measure length") (auto simp: length_dropWhile_le less_Suc_eq_le)

text \<open>
  The vectors of columns that the statistics pass and the encoder collect in a row:
  the maximal stretches of consecutive plain elements (\<open>xs\<close> is the stretch under
  way).
\<close>

fun plain_segs :: "u64 list \<Rightarrow> 'v SpmRowElem list \<Rightarrow> u64 list list" where
  "plain_segs xs [] = (if xs = [] then [] else [xs])"
| "plain_segs xs (Elem x v # rest) = plain_segs (xs @ [x]) rest"
| "plain_segs xs (PatElem x p pvs # rest) = (if xs = [] then [] else [xs]) @ plain_segs [] rest"

text \<open>The runs of the delta-RLE of every stretch of a row, and of every row of a partition.\<close>

definition row_runs :: "'v SpmRowElem list \<Rightarrow> RLE list" where
  "row_runs row = concat (map (\<lambda>seg. max_runs (col_deltas seg)) (plain_segs [] row))"

definition spm_runs :: "'v SPM \<Rightarrow> RLE list" where
  "spm_runs s = concat (map row_runs (rows s))"

text \<open>The runs of delta \<open>d\<close> that reach the minimum frequency.\<close>

definition good_runs :: "int \<Rightarrow> RLE list \<Rightarrow> u64 \<Rightarrow> RLE list" where
  "good_runs ml rles d = filter (\<lambda>r. val r = d \<and> ml \<le> freq r) rles"

text \<open>
  The spec's description of \<^verbatim>\<open>do_encode\<close> for one run \<open>(v, f)\<close> of a non-block order,
  written from its words: if \<open>v\<close> is a delta to encode, while \<open>f \<ge> min_limit\<close> take
  \<open>chunk = min(max_limit, f)\<close>, emit one pattern element anchored at \<open>col + v\<close> with
  the descriptor (type, delta \<open>v\<close>, size \<open>chunk\<close>) and the next \<open>chunk\<close> values, advance
  \<open>col\<close> by \<open>v \<times> chunk\<close> and subtract \<open>chunk\<close> from \<open>f\<close>; then emit the remaining \<open>f\<close>
  as plain elements, one per step of \<open>v\<close>. \<open>vals\<close> are the values not consumed yet and
  \<open>out\<close> the elements emitted so far. The description need not end (a chunk may be
  0 or less): that is \<open>None\<close>.
\<close>

partial_function (option) do_encode_run ::
  "int \<Rightarrow> int \<Rightarrow> bool \<Rightarrow> SpmIterOrder \<Rightarrow> u64 \<Rightarrow> int \<Rightarrow> u64 \<Rightarrow> 'v list \<Rightarrow> 'v SpmRowElem list \<Rightarrow>
   'v SpmRowElem list option" where
  "do_encode_run min_l max_l in_set t v f col vals out =
     (if in_set \<and> min_l \<le> f
      then do_encode_run min_l max_l in_set t v (f - min max_l f)
             (col + v * of_int (min max_l f)) (drop (nat (min max_l f)) vals)
             (out @ [PatElem (col + v) (DeltaRLE (nat (min max_l f)) v t)
                       (take (nat (min max_l f)) vals)])
      else Some (out @ map (\<lambda>i. Elem (col + v * of_nat (i + 1)) (vals ! i)) [0..<nat f]))"

text \<open>
  The description for the runs of a vector in turn: each run starts at the column
  where the run before it ended and takes the values that follow.
\<close>

fun do_encode_runs ::
  "int \<Rightarrow> int \<Rightarrow> u64 set \<Rightarrow> SpmIterOrder \<Rightarrow> RLE list \<Rightarrow> u64 \<Rightarrow> 'v list \<Rightarrow> 'v SpmRowElem list \<Rightarrow>
   'v SpmRowElem list option" where
  "do_encode_runs min_l max_l dset t [] col vals out = Some out"
| "do_encode_runs min_l max_l dset t (r # rest) col vals out =
     (case do_encode_run min_l max_l (val r \<in> dset) t (val r) (freq r) col vals out of
        None \<Rightarrow> None
      | Some out1 \<Rightarrow>
          do_encode_runs min_l max_l dset t rest (col + val r * of_int (freq r))
            (drop (nat (freq r)) vals) out1)"

definition do_encode_spec ::
  "int \<Rightarrow> int \<Rightarrow> u64 set \<Rightarrow> SpmIterOrder \<Rightarrow> u64 list \<Rightarrow> 'v list \<Rightarrow> 'v SpmRowElem list option" where
  "do_encode_spec min_l max_l dset t xs vs =
     do_encode_runs min_l max_l dset t (max_runs (col_deltas xs)) 0 vs []"

section \<open>Example inputs\<close>

text \<open>
  An instance of the missing declarations (pattern ids by type and delta, the last
  column of a run) and a small partition: a row of two plain elements and a horizontal
  run, two empty rows, and a row whose delta needs two bytes.
\<close>

definition ex_decls :: Decls where
  "ex_decls =
     \<lparr>CTL_PATTERNS_MAX = 63, PID_DELTA_BASE = 0,
      GetPatternId = (\<lambda>p. int (pat_type p) * 10000 + uint (pat_delta p)),
      ColIncreaseJmp = (\<lambda>p t x. x + pat_delta p * of_nat (GetSize p - 1))\<rparr>"

definition ex_spm :: "nat SPM" where
  "ex_spm =
     \<lparr>spm_type = HORIZONTAL, nr_cols = 300, row_start = 0, nr_nzeros = 7,
      rows = [[Elem 1 10, Elem 3 11, PatElem 5 (DeltaRLE 3 1 HORIZONTAL) [12, 13, 14]],
              [], [],
              [Elem 2 15, Elem 300 16]]\<rparr>"

text \<open>A row of two plain elements whose columns are \<open>2^32\<close> apart.\<close>

definition ex_spm_wide :: "nat SPM" where
  "ex_spm_wide =
     \<lparr>spm_type = HORIZONTAL, nr_cols = 4294967297, row_start = 0, nr_nzeros = 2,
      rows = [[Elem 1 10, Elem 4294967297 11]]\<rparr>"


text \<open>
  A manager with the default limits on a partition of three rows, and an instance of
  the transform that only records the order (it is the identity on a partition that
  is already in the requested order).
\<close>

definition ex_drle :: "nat DRLE_Manager" where
  "ex_drle =
     \<lparr>d_spm = \<lparr>spm_type = HORIZONTAL, nr_cols = 20, row_start = 0, nr_nzeros = 9,
               rows = [[Elem 1 1, Elem 2 2, Elem 3 3, Elem 4 4, Elem 5 5, Elem 9 6, Elem 10 7],
                       [],
                       [Elem 3 8, Elem 7 9]]\<rparr>,
      min_limit = 4, max_limit = 254, min_perc = 1 / 10,
      xforms_ignore = {NONE, BLOCK_TYPE_START, BLOCK_ROW_TYPE_NAME 1, BLOCK_COL_START,
                       BLOCK_COL_TYPE_NAME 1, BLOCK_TYPE_END},
      stats_map = [], DeltasToEncode = (\<lambda>t. {}), newrow_max = 1000\<rparr>"

definition ex_xform :: "SpmIterOrder \<Rightarrow> nat SPM \<Rightarrow> nat SPM" where
  "ex_xform t s = s\<lparr>spm_type := t\<rparr>"

text \<open>
  The same partition with \<open>max_limit = 0\<close>, and every order but the horizontal one ignored.
\<close>

definition ex_drle_max0 :: "nat DRLE_Manager" where
  "ex_drle_max0 = ex_drle\<lparr>max_limit := 0, xforms_ignore := {NONE} \<union> {VERTICAL..<XFORM_MAX}\<rparr>"
section \<open>Properties of the varint codec and of the width selection\<close>

lemma unat_ucast_mod:
  "unat (ucast (w :: 'a::len word) :: 'b::len word) = unat w mod 2 ^ LENGTH('b)"
  by (simp add: unsigned_ucast_eq take_bit_eq_mod)

lemma ucast_back_iff:
  "LENGTH('b) \<le> LENGTH('a) \<Longrightarrow>
   ((ucast (ucast (w :: 'a::len word) :: 'b::len word) :: 'a word) = w) = (unat w < 2 ^ LENGTH('b))"
proof -
  assume le: "LENGTH('b) \<le> LENGTH('a)"
  have "(2::nat) ^ LENGTH('b) \<le> 2 ^ LENGTH('a)"
    using le by (simp add: power_increasing)
  then have lt: "unat w mod 2 ^ LENGTH('b) < 2 ^ LENGTH('a)"
    by (meson less_le_trans mod_less_divisor zero_less_numeral zero_less_power)
  have "unat (ucast (ucast w :: 'b word) :: 'a word) = unat w mod 2 ^ LENGTH('b)"
    using lt by (simp add: unat_ucast_mod)
  then show ?thesis
    by (auto simp: word_unat_eq_iff mod_less) (metis mod_less_divisor zero_less_numeral zero_less_power)
qed

lemma GetDeltaSize_cases:
  "GetDeltaSize v =
     (if unat v < 2 ^ 8 then 1 else if unat v < 2 ^ 16 then 2
      else if unat v < 2 ^ 32 then 4 else 8)"
  by (simp add: GetDeltaSize_def ucast_back_iff)

lemma da_put_ul_small: "vl < 128 \<Longrightarrow> da_put_ul da vl = da @ [ucast vl]"
proof -
  assume a: "vl < 128"
  have "vl AND mask 7 = vl"
    using a by (intro less_mask_eq) simp
  then have "vl AND 127 = vl"
    by (simp add: mask_eq_exp_minus_1)
  with a show ?thesis by (simp add: da_put_ul.simps)
qed


lemma da_put_ul_128: "da_put_ul [] 128 = [128, 1]"
  by (simp add: da_put_ul.simps)

lemma da_put_ul_256: "da_put_ul [] 256 = [128, 2]"
  by (simp add: da_put_ul.simps)

lemma uc_get_ul_single: "vl < 128 \<Longrightarrow> uc_get_ul u (da_put_ul [] vl @ rest) = Some (vl, rest)"
proof -
  assume a: "vl < 128"
  then have "unat vl < 128" by (simp add: word_less_nat_alt)
  then have b: "(ucast (ucast vl :: u8) :: u64) = vl"
    by (simp add: ucast_back_iff)
  have c: "\<not> (127 :: u64) < vl"
    using a by (simp add: word_less_nat_alt)
  show ?thesis
    using a by (simp add: da_put_ul_small uc_get_ul_def u8_get_def b c)
qed

lemma uc_get_ul_loop_ignores_bytes:
  "length bs = length bs' \<Longrightarrow>
   map_option fst (uc_get_ul_loop u bs v s) = map_option fst (uc_get_ul_loop u bs' v s)"
proof (induction bs arbitrary: bs' u v s)
  case Nil
  then show ?case by simp
next
  case (Cons b bs)
  then obtain b' bs'' where "bs' = b' # bs''" by (cases bs') auto
  with Cons show ?case by simp
qed

text \<open>
  C2. The writer \<open>da_put_ul\<close> followed by the reader \<open>uc_get_ul\<close> should give the value
  back. The reader as written never looks at the continuation bytes: whatever the
  indeterminate value \<open>u\<close> of its local \<^verbatim>\<open>_uc\<close>, it cannot read back both 128 and 256,
  whose encodings \<open>[128, 1]\<close> and \<open>[128, 2]\<close> differ only in the second byte.
\<close>

theorem uc_get_ul_roundtrip_fails:
  "\<not> (uc_get_ul u (da_put_ul [] 128) = Some (128, [])
      \<and> uc_get_ul u (da_put_ul [] 256) = Some (256, []))"
  by (simp add: da_put_ul_128 da_put_ul_256 uc_get_ul_def u8_get_def)

section \<open>The shape of a unit in the ctl stream\<close>

lemma drop_bit_7_less: "\<not> (vl :: u64) < 128 \<Longrightarrow> unat (drop_bit 7 vl) < unat vl"
proof -
  assume "\<not> vl < 128"
  then have "128 \<le> unat vl" by (simp add: word_less_nat_alt not_less)
  moreover have "unat (drop_bit 7 vl) = unat vl div 128"
    by (simp add: drop_bit_eq_div unat_div)
  ultimately show ?thesis by simp
qed

lemma da_put_ul_append: "da_put_ul da vl = da @ da_put_ul [] vl"
proof (induction "unat vl" arbitrary: da vl rule: less_induct)
  case less
  show ?case
  proof (cases "vl < 128")
    case True
    then show ?thesis by (simp add: da_put_ul.simps [of da] da_put_ul.simps [of "[]"])
  next
    case False
    define uc :: u8 where "uc = ucast (vl AND 127) OR 128"
    note IH = less [OF drop_bit_7_less [OF False]]
    have "da_put_ul da vl = da_put_ul (da @ [uc]) (drop_bit 7 vl)"
      using False by (simp add: da_put_ul.simps [of da vl] Let_def uc_def)
    also have "\<dots> = (da @ [uc]) @ da_put_ul [] (drop_bit 7 vl)"
      by (rule IH)
    also have "\<dots> = da @ da_put_ul [uc] (drop_bit 7 vl)"
      using IH [of "[uc]"] by simp
    also have "da_put_ul [uc] (drop_bit 7 vl) = da_put_ul [] vl"
      using False by (simp add: da_put_ul.simps [of "[]" vl] Let_def uc_def)
    finally show ?thesis .
  qed
qed

lemma GetFlag_frame:
  "GetFlag D m pid n = Inr (f, m') \<Longrightarrow>
   ctl_da m' = ctl_da m \<and> ctl_units m' = ctl_units m \<and> values_buf m' = values_buf m \<and>
   values_idx m' = values_idx m \<and> new_row m' = new_row m \<and> empty_rows m' = empty_rows m \<and>
   spm m' = spm m \<and> last_col m' = last_col m \<and> row_jmps m' = row_jmps m"
  by (auto simp: GetFlag_def Let_def split: option.splits if_splits)

lemma GetFlag_bound:
  "flags_inv D m \<Longrightarrow> GetFlag D m pid n = Inr (f, m') \<Longrightarrow>
   unat f \<le> CTL_PATTERNS_MAX D \<and> flags_inv D m'"
  by (auto simp: GetFlag_def Let_def flags_inv_def split: option.splits if_splits)

lemma GetFlag_cong:
  "patterns m = patterns k \<Longrightarrow> flag_avail m = flag_avail k \<Longrightarrow>
   map_sum id fst (GetFlag D m pid n) = map_sum id fst (GetFlag D k pid n)"
  by (auto simp: GetFlag_def Let_def split: option.splits)

lemma UpdateNewRow_ctl:
  "ctl_da m = c @ [f, s] \<Longrightarrow>
   ctl_da (UpdateNewRow m (length c)) = c @ [rj_flags m f, s] @ rj_bytes m"
  by (simp add: UpdateNewRow_def rj_flags_def rj_bytes_def Let_def da_put_ul_append [of "_ @ _"])

lemma UpdateNewRow_frame:
  "ctl_units (UpdateNewRow m fl) = ctl_units m \<and> values_buf (UpdateNewRow m fl) = values_buf m \<and>
   values_idx (UpdateNewRow m fl) = values_idx m \<and> spm (UpdateNewRow m fl) = spm m \<and>
   last_col (UpdateNewRow m fl) = last_col m \<and> patterns (UpdateNewRow m fl) = patterns m \<and>
   flag_avail (UpdateNewRow m fl) = flag_avail m \<and>
   new_row (UpdateNewRow m fl) = False \<and>
   empty_rows (UpdateNewRow m fl) = (if new_row m then 0 else empty_rows m)"
  by (simp add: UpdateNewRow_def Let_def)

text \<open>The shape of what \<open>AddXs\<close> appends to the ctl stream.\<close>


lemma UpdateNewRow_ctl_upd:
  "ctl_da (UpdateNewRow (m\<lparr>ctl_da := c @ [f, s]\<rparr>) (length c)) = c @ [rj_flags m f, s] @ rj_bytes m"
  using UpdateNewRow_ctl [of "m\<lparr>ctl_da := c @ [f, s]\<rparr>" c f s]
  by (simp add: rj_flags_def rj_bytes_def)

lemma unit_head_ctl:
  assumes ok: "unit_head D m pid n size_ok sz = Inr m'"
  shows "size_ok \<and>
         (\<exists>f. ctl_da m' = ctl_da m @ [rj_flags m f, of_nat sz] @ rj_bytes m \<and>
              (flags_inv D m \<longrightarrow> unat f \<le> CTL_PATTERNS_MAX D)) \<and>
         (flags_inv D m \<longrightarrow> flags_inv D m') \<and>
         ctl_units m' = ctl_units m @ [length (ctl_da m)] \<and>
         values_buf m' = values_buf m \<and> values_idx m' = values_idx m \<and> spm m' = spm m \<and>
         last_col m' = last_col m \<and>
         new_row m' = False \<and> empty_rows m' = (if new_row m then 0 else empty_rows m)"
proof -
  define m1 where "m1 = m\<lparr>ctl_da := ctl_da m @ [0, 0], ctl_units := ctl_units m @ [length (ctl_da m)]\<rparr>"
  from ok obtain f m2 where gf: "GetFlag D m1 pid n = Inr (f, m2)"
    by (auto simp: unit_head_def Let_def m1_def split: sum.splits)
  note fr = GetFlag_frame [OF gf]
  have inv1: "flags_inv D m \<Longrightarrow> flags_inv D m1" by (simp add: flags_inv_def m1_def)
  note fb = GetFlag_bound [OF inv1 gf]
  have c2: "ctl_da m2 = ctl_da m @ [0, 0]" using fr by (simp add: m1_def)
  from ok gf have so: size_ok
    by (auto simp: unit_head_def Let_def m1_def [symmetric] split: if_splits)
  have upd: "(ctl_da m @ [f, 0])[Suc (length (ctl_da m)) := s] = ctl_da m @ [f, s]" for s
    by (simp add: list_update_append)
  from ok gf so have m': "m' = UpdateNewRow (m2\<lparr>ctl_da := ctl_da m @ [f, of_nat sz]\<rparr>) (length (ctl_da m))"
    by (simp add: unit_head_def Let_def m1_def [symmetric] c2 upd)
  have rj: "rj_flags m2 f = rj_flags m f" "rj_bytes m2 = rj_bytes m"
    using fr by (simp_all add: rj_flags_def rj_bytes_def m1_def)
  have "flags_inv D m2 \<Longrightarrow> flags_inv D m'"
    by (simp add: m' flags_inv_def UpdateNewRow_frame)
  with fb so show ?thesis
    using fr by (auto simp: m' UpdateNewRow_ctl_upd UpdateNewRow_frame rj m1_def)
qed

lemma put_deltas_ctl:
  "put_deltas m ds l = Inr m' \<Longrightarrow>
   ds \<noteq> DELTA_U64 \<and>
   ctl_da m' = ctl_da m @ align_pad (length (ctl_da m)) (DeltaSize_getBytes ds) @ Copy (DeltaSize_getBytes ds) l \<and>
   ctl_units m' = ctl_units m \<and> values_buf m' = values_buf m \<and> values_idx m' = values_idx m \<and>
   spm m' = spm m \<and> new_row m' = new_row m \<and> empty_rows m' = empty_rows m \<and>
   patterns m' = patterns m \<and> last_col m' = last_col m"
  by (auto simp: put_deltas_def Let_def split: DeltaSize.splits)

lemma AddXs_ctl:
  assumes ok: "AddXs D m xs = Inr m'"
  shows "xs \<noteq> [] \<and> length xs \<le> CTL_SIZE_MAX \<and>
         (\<exists>f body. ctl_da m' = ctl_da m @ [rj_flags m f, of_nat (length xs)] @ rj_bytes m @ body \<and>
                    (flags_inv D m \<longrightarrow> unat f \<le> CTL_PATTERNS_MAX D)) \<and>
         (flags_inv D m \<longrightarrow> flags_inv D m') \<and>
         ctl_units m' = ctl_units m @ [length (ctl_da m)] \<and>
         values_buf m' = values_buf m \<and> values_idx m' = values_idx m \<and> spm m' = spm m \<and>
         new_row m' = False \<and> empty_rows m' = (if new_row m then 0 else empty_rows m)"
proof -
  from ok have ne: "xs \<noteq> []" by (auto simp: AddXs_def split: if_splits)
  from ok ne have "\<exists>pid m2 j.
      unit_head D (m\<lparr>last_col := last xs\<rparr>) pid (length xs)
        (length xs > 0 \<and> length xs \<le> CTL_SIZE_MAX) (length xs) = Inr m2 \<and>
      (m' = m2\<lparr>ctl_da := da_put_ul (ctl_da m2) j\<rparr> \<or>
       (\<exists>ds l. put_deltas (m2\<lparr>ctl_da := da_put_ul (ctl_da m2) j\<rparr>) ds l = Inr m'))"
    by (auto simp: AddXs_def Let_def split: sum.splits if_splits simp del: One_nat_def) blast+
  then obtain pid m2 j where
    uh: "unit_head D (m\<lparr>last_col := last xs\<rparr>) pid (length xs)
           (length xs > 0 \<and> length xs \<le> CTL_SIZE_MAX) (length xs) = Inr m2" and
    rest: "m' = m2\<lparr>ctl_da := da_put_ul (ctl_da m2) j\<rparr> \<or>
       (\<exists>ds l. put_deltas (m2\<lparr>ctl_da := da_put_ul (ctl_da m2) j\<rparr>) ds l = Inr m')"
    by blast
  note h = unit_head_ctl [OF uh]
  have rj: "rj_flags (m\<lparr>last_col := last xs\<rparr>) = rj_flags m" "rj_bytes (m\<lparr>last_col := last xs\<rparr>) = rj_bytes m"
    by (simp_all add: rj_flags_def rj_bytes_def fun_eq_iff)
  have fi: "flags_inv D (m\<lparr>last_col := last xs\<rparr>) = flags_inv D m"
    by (simp add: flags_inv_def)
  from h obtain f where
    c2: "ctl_da m2 = ctl_da m @ [rj_flags m f, of_nat (length xs)] @ rj_bytes m" and
    fb: "flags_inv D m \<longrightarrow> unat f \<le> CTL_PATTERNS_MAX D"
    by (auto simp: rj fi)
  from rest show ?thesis
  proof
    assume m': "m' = m2\<lparr>ctl_da := da_put_ul (ctl_da m2) j\<rparr>"
    have "ctl_da m' = ctl_da m @ [rj_flags m f, of_nat (length xs)] @ rj_bytes m @ da_put_ul [] j"
      by (simp add: m' c2 da_put_ul_append [of "_ @ _"])
    moreover have "flags_inv D m2 \<Longrightarrow> flags_inv D m'" by (simp add: m' flags_inv_def)
    ultimately show ?thesis
      using h fb ne by (auto simp: m' fi)
  next
    assume "\<exists>ds l. put_deltas (m2\<lparr>ctl_da := da_put_ul (ctl_da m2) j\<rparr>) ds l = Inr m'"
    then obtain ds l where pd: "put_deltas (m2\<lparr>ctl_da := da_put_ul (ctl_da m2) j\<rparr>) ds l = Inr m'"
      by blast
    note p = put_deltas_ctl [OF pd]
    have "\<exists>body. ctl_da m' = ctl_da m @ [rj_flags m f, of_nat (length xs)] @ rj_bytes m @ body"
      using p by (simp add: c2 da_put_ul_append [of "_ @ _"])
    moreover have "flags_inv D m2 \<Longrightarrow> flags_inv D m'" using p by (simp add: flags_inv_def)
    ultimately show ?thesis
      using h fb ne p by (auto simp: fi)
  qed
qed

lemma AddPattern_ctl:
  assumes ok: "AddPattern D m (PatElem x p vs) jmp = Inr m'"
  shows "GetSize p + (if jmp \<noteq> 0 then 1 else 0) \<le> CTL_SIZE_MAX \<and>
         (\<exists>f body. ctl_da m' = ctl_da m @ [rj_flags m f, of_nat (GetSize p + (if jmp \<noteq> 0 then 1 else 0))]
                       @ rj_bytes m @ body \<and>
                    (flags_inv D m \<longrightarrow> unat f \<le> CTL_PATTERNS_MAX D)) \<and>
         (flags_inv D m \<longrightarrow> flags_inv D m') \<and>
         ctl_units m' = ctl_units m @ [length (ctl_da m)] \<and>
         values_buf m' = values_buf m \<and> values_idx m' = values_idx m \<and> spm m' = spm m \<and>
         new_row m' = False \<and> empty_rows m' = (if new_row m then 0 else empty_rows m)"
proof -
  define sz where "sz = GetSize p + (if jmp \<noteq> 0 then 1 else 0)"
  from ok obtain m1 where
    uh: "unit_head D m (GetPatternId D p) (GetSize p) (sz \<le> CTL_SIZE_MAX) sz = Inr m1"
    by (auto simp: AddPattern_def Let_def sz_def split: sum.splits)
  note h = unit_head_ctl [OF uh]
  from ok uh obtain j c where m': "m' = m1\<lparr>ctl_da := da_put_ul (ctl_da m1) j, last_col := c\<rparr>"
    by (auto simp: AddPattern_def Let_def sz_def [symmetric])
  from h obtain f where
    c1: "ctl_da m1 = ctl_da m @ [rj_flags m f, of_nat sz] @ rj_bytes m" and
    fb: "flags_inv D m \<longrightarrow> unat f \<le> CTL_PATTERNS_MAX D"
    by auto
  have "ctl_da m' = ctl_da m @ [rj_flags m f, of_nat sz] @ rj_bytes m @ da_put_ul [] j"
    by (simp add: m' c1 da_put_ul_append [of "_ @ _"])
  moreover have "flags_inv D m1 \<Longrightarrow> flags_inv D m'" by (simp add: m' flags_inv_def)
  ultimately show ?thesis
    using h fb by (auto simp: m' sz_def [symmetric])
qed

section \<open>Size conservation of the assembler\<close>

lemma unit_sizes_append:
  assumes "\<forall>off \<in> set offs. off + 1 < length c"
  shows "unit_sizes (c @ f # s # rest) (offs @ [length c]) = unit_sizes c offs @ [unat s]"
  using assms by (auto simp: unit_sizes_def nth_append)

lemma unat_of_nat_u8: "n \<le> CTL_SIZE_MAX \<Longrightarrow> unat (of_nat n :: u8) = n"
  by (simp add: CTL_SIZE_MAX_def unat_of_nat)

lemma units_inv_step:
  assumes inv: "units_inv m g"
    and c: "ctl_da m' = ctl_da m @ [f, of_nat n] @ rest"
    and u: "ctl_units m' = ctl_units m @ [length (ctl_da m)]"
    and n: "n \<le> CTL_SIZE_MAX" and l: "length grp = n"
  shows "units_inv m' (g @ [grp])"
proof -
  from inv have b: "\<forall>off \<in> set (ctl_units m). off + 1 < length (ctl_da m)"
    and s: "unit_sizes (ctl_da m) (ctl_units m) = map length g"
    by (simp_all add: units_inv_def)
  have "unit_sizes (ctl_da m') (ctl_units m') = map length (g @ [grp])"
    using unit_sizes_append [OF b, of f "of_nat n" rest] s l n
    by (simp add: c u unat_of_nat_u8)
  moreover have "\<forall>off \<in> set (ctl_units m'). off + 1 < length (ctl_da m')"
    using b by (auto simp: c u)
  ultimately show ?thesis by (simp add: units_inv_def)
qed

lemma AddXs_units:
  assumes ok: "AddXs D m xs = Inr m'" and inv: "units_inv m g" and l: "length grp = length xs"
  shows "units_inv m' (g @ [grp]) \<and> values_buf m' = values_buf m \<and> values_idx m' = values_idx m
         \<and> spm m' = spm m"
proof -
  note h = AddXs_ctl [OF ok]
  from h obtain f body where
    c: "ctl_da m' = ctl_da m @ [rj_flags m f, of_nat (length xs)] @ (rj_bytes m @ body)" by auto
  from units_inv_step [OF inv c _ _ l] h show ?thesis by simp
qed

lemma AddPattern_units:
  assumes ok: "AddPattern D m (PatElem x p vs) 0 = Inr m'" and inv: "units_inv m g"
    and l: "length grp = GetSize p"
  shows "units_inv m' (g @ [grp]) \<and> values_buf m' = values_buf m \<and> values_idx m' = values_idx m
         \<and> spm m' = spm m"
proof -
  note h = AddPattern_ctl [OF ok]
  from h obtain f body where
    c: "ctl_da m' = ctl_da m @ [rj_flags m f, of_nat (GetSize p)] @ (rj_bytes m @ body)" by auto
  from units_inv_step [OF inv c _ _ l] h show ?thesis by simp
qed

lemma vals_inv_cong:
  "values_buf m' = values_buf m \<Longrightarrow> values_idx m' = values_idx m \<Longrightarrow> vals_inv m' vs = vals_inv m vs"
  by (simp add: vals_inv_def)

lemma put_value_inv:
  assumes ok: "put_value m v = Inr m'" and vi: "vals_inv m vs"
  shows "vals_inv m' (vs @ [v]) \<and> ctl_da m' = ctl_da m \<and> ctl_units m' = ctl_units m \<and>
         spm m' = spm m \<and> length (values_buf m') = length (values_buf m)"
proof -
  from ok have lt: "values_idx m < length (values_buf m)"
    and m': "m' = m\<lparr>values_buf := (values_buf m)[values_idx m := Some v], values_idx := values_idx m + 1\<rparr>"
    by (auto simp: put_value_def split: if_splits)
  from vi have t: "take (values_idx m) (values_buf m) = map Some vs" and i: "values_idx m = length vs"
    by (auto simp: vals_inv_def)
  have "take (Suc (values_idx m)) ((values_buf m)[values_idx m := Some v]) = map Some vs @ [Some v]"
    using lt t by (simp add: take_Suc_conv_app_nth)
  then show ?thesis using lt i by (simp add: m' vals_inv_def)
qed

lemma put_values_inv:
  "put_values m l = Inr m' \<Longrightarrow> vals_inv m vs \<Longrightarrow>
   vals_inv m' (vs @ l) \<and> ctl_da m' = ctl_da m \<and> ctl_units m' = ctl_units m \<and>
   spm m' = spm m \<and> length (values_buf m') = length (values_buf m)"
proof (induction l arbitrary: m vs)
  case Nil
  then show ?case by simp
next
  case (Cons v l)
  from Cons.prems(1) obtain m1 where pv: "put_value m v = Inr m1" and r: "put_values m1 l = Inr m'"
    by (auto split: sum.splits)
  note a = put_value_inv [OF pv Cons.prems(2)]
  from Cons.IH [OF r, of "vs @ [v]"] a show ?case by simp
qed

lemma units_inv_cong:
  "ctl_da m' = ctl_da m \<Longrightarrow> ctl_units m' = ctl_units m \<Longrightarrow> units_inv m' g = units_inv m g"
  by (simp add: units_inv_def)

lemma PreparePat_cases:
  "PreparePat D m xs = Inr (j, m1) \<Longrightarrow> j = 0 \<and> (xs = [] \<and> m1 = m \<or> xs \<noteq> [] \<and> AddXs D m xs = Inr m1)"
  by (auto simp: PreparePat_def split: if_splits sum.splits)


lemma row_groups_concat: "concat (row_groups pend row) = pend @ concat (map elem_vals row)"
  by (induction pend row rule: row_groups.induct) auto

text \<open>The element loop keeps the invariants, and its units are the groups of the row.\<close>

lemma DoRow_loop_inv:
  "DoRow_loop D m xs row = Inr (m', xs') \<Longrightarrow>
   units_inv m g \<Longrightarrow> vals_inv m (concat g @ pend) \<Longrightarrow> length xs = length pend \<Longrightarrow>
   \<exists>g' pend'. units_inv m' (g @ g') \<and> vals_inv m' (concat (g @ g') @ pend') \<and>
     length xs' = length pend' \<and>
     row_groups pend row = g' @ (if pend' = [] then [] else [pend']) \<and>
     spm m' = spm m \<and> length (values_buf m') = length (values_buf m)"
proof (induction row arbitrary: m xs g pend)
  case Nil
  then show ?case by (intro exI [of _ "[]"] exI [of _ pend]) simp
next
  case (Cons e rest)
  show ?case
  proof (cases e)
    case (PatElem x p vs)
    from Cons.prems(1) obtain jmp m1 m2 m3 where
      pp: "PreparePat D m xs = Inr (jmp, m1)" and
      ap: "AddPattern D m1 (PatElem x p vs) jmp = Inr m2" and
      len: "\<not> length vs < GetSize p" and
      pv: "put_values m2 (take (GetSize p) vs) = Inr m3" and
      rec: "DoRow_loop D m3 [] rest = Inr (m', xs')"
      by (auto simp: PatElem split: sum.splits if_splits)
    define g1 where "g1 = g @ (if pend = [] then [] else [pend])"
    from PreparePat_cases [OF pp] have j0: "jmp = 0" and
      c: "xs = [] \<and> m1 = m \<or> xs \<noteq> [] \<and> AddXs D m xs = Inr m1" by auto
    have s1: "units_inv m1 g1 \<and> values_buf m1 = values_buf m \<and> values_idx m1 = values_idx m \<and> spm m1 = spm m"
      using c
    proof
      assume "xs = [] \<and> m1 = m"
      with Cons.prems show ?thesis by (simp add: g1_def)
    next
      assume a: "xs \<noteq> [] \<and> AddXs D m xs = Inr m1"
      with Cons.prems(4) have "pend \<noteq> []" by auto
      with AddXs_units [OF _ Cons.prems(2), of D xs m1 pend] a Cons.prems(4)
      show ?thesis by (simp add: g1_def)
    qed
    have cg1: "concat g1 = concat g @ pend" by (simp add: g1_def)
    have v1: "vals_inv m1 (concat g1)"
      using s1 Cons.prems(3) by (simp add: cg1 vals_inv_cong [of m1 m])
    have lg: "length (take (GetSize p) vs) = GetSize p" using len by simp
    from s1 have u1: "units_inv m1 g1" by simp
    from AddPattern_units [OF ap [unfolded j0] u1 lg] s1
    have s2: "units_inv m2 (g1 @ [take (GetSize p) vs]) \<and> values_buf m2 = values_buf m1
        \<and> values_idx m2 = values_idx m1 \<and> spm m2 = spm m1" by simp
    have v2: "vals_inv m2 (concat g1)" using s2 v1 by (simp add: vals_inv_cong [of m2 m1])
    note s3 = put_values_inv [OF pv v2]
    have u3: "units_inv m3 (g1 @ [take (GetSize p) vs])"
      using s3 s2 by (simp add: units_inv_cong [of m3 m2])
    have v3: "vals_inv m3 (concat (g1 @ [take (GetSize p) vs]) @ [])" using s3 by simp
    from Cons.IH [OF rec u3 v3] obtain g' pend' where
      r: "units_inv m' ((g1 @ [take (GetSize p) vs]) @ g')"
         "vals_inv m' (concat ((g1 @ [take (GetSize p) vs]) @ g') @ pend')"
         "length xs' = length pend'"
         "row_groups [] rest = g' @ (if pend' = [] then [] else [pend'])"
         "spm m' = spm m3" "length (values_buf m') = length (values_buf m3)"
      by auto
    show ?thesis
      apply (rule exI [of _ "(if pend = [] then [] else [pend]) @ [take (GetSize p) vs] @ g'"])
      apply (rule exI [of _ pend'])
      using r s1 s2 s3 by (simp add: g1_def PatElem)
  next
    case (Elem x v)
    from Cons.prems(1) have le: "length xs \<le> CTL_SIZE_MAX"
      by (auto simp: Elem split: if_splits)
    show ?thesis
    proof (cases "length xs = CTL_SIZE_MAX")
      case True
      from Cons.prems(1) le True obtain m1 m2 where
        ax: "AddXs D m xs = Inr m1" and pv: "put_value m1 v = Inr m2" and
        rec: "DoRow_loop D m2 [x] rest = Inr (m', xs')"
        by (auto simp: Elem split: sum.splits if_splits)
      note s1 = AddXs_units [OF ax Cons.prems(2), of pend]
      have v1: "vals_inv m1 (concat (g @ [pend]))"
        using s1 Cons.prems(3,4) by (simp add: vals_inv_cong [of m1 m])
      note s2 = put_value_inv [OF pv v1]
      have u2: "units_inv m2 (g @ [pend])"
        using s1 s2 Cons.prems(4) by (simp add: units_inv_cong [of m2 m1])
      have v2: "vals_inv m2 (concat (g @ [pend]) @ [v])" using s2 by simp
      from Cons.IH [OF rec u2 v2] obtain g' pend' where
        r: "units_inv m' ((g @ [pend]) @ g')"
           "vals_inv m' (concat ((g @ [pend]) @ g') @ pend')"
           "length xs' = length pend'"
           "row_groups [v] rest = g' @ (if pend' = [] then [] else [pend'])"
           "spm m' = spm m2" "length (values_buf m') = length (values_buf m2)"
        by auto
      show ?thesis
        apply (rule exI [of _ "pend # g'"])
        apply (rule exI [of _ pend'])
        using r s1 s2 True Cons.prems(4) by (simp add: Elem)
    next
      case False
      from Cons.prems(1) le False obtain m2 where
        pv: "put_value m v = Inr m2" and
        rec: "DoRow_loop D m2 (xs @ [x]) rest = Inr (m', xs')"
        by (auto simp: Elem split: sum.splits if_splits)
      note s2 = put_value_inv [OF pv Cons.prems(3)]
      have u2: "units_inv m2 g" using s2 Cons.prems(2) by (simp add: units_inv_cong [of m2 m])
      have v2: "vals_inv m2 (concat g @ (pend @ [v]))" using s2 by simp
      from Cons.IH [OF rec u2 v2] Cons.prems(4) obtain g' pend' where
        r: "units_inv m' (g @ g')"
           "vals_inv m' (concat (g @ g') @ pend')"
           "length xs' = length pend'"
           "row_groups (pend @ [v]) rest = g' @ (if pend' = [] then [] else [pend'])"
           "spm m' = spm m2" "length (values_buf m') = length (values_buf m2)"
        by auto
      show ?thesis
        apply (rule exI [of _ g'])
        apply (rule exI [of _ pend'])
        using r s2 False Cons.prems(4) by (simp add: Elem)
    qed
  qed
qed


lemma DoRow_inv:
  assumes ok: "DoRow D m row = Inr m'" and u: "units_inv m g" and v: "vals_inv m (concat g)"
  shows "units_inv m' (g @ row_groups [] row) \<and> vals_inv m' (concat (g @ row_groups [] row)) \<and>
         spm m' = spm m \<and> length (values_buf m') = length (values_buf m)"
proof -
  from ok obtain m1 xs where
    lp: "DoRow_loop D (m\<lparr>last_col := 1\<rparr>) [] row = Inr (m1, xs)" and
    fl: "if length xs > 0 then AddXs D m1 xs = Inr m' else m' = m1"
    by (auto simp: DoRow_def split: sum.splits if_splits)
  have u0: "units_inv (m\<lparr>last_col := 1\<rparr>) g" using u by (simp add: units_inv_def)
  have v0: "vals_inv (m\<lparr>last_col := 1\<rparr>) (concat g @ [])" using v by (auto simp: vals_inv_def)
  from DoRow_loop_inv [OF lp u0 v0] obtain g' pend' where
    r: "units_inv m1 (g @ g')" "vals_inv m1 (concat (g @ g') @ pend')" "length xs = length pend'"
       "row_groups [] row = g' @ (if pend' = [] then [] else [pend'])"
       "spm m1 = spm m" "length (values_buf m1) = length (values_buf m)"
    by auto
  show ?thesis
  proof (cases "pend' = []")
    case True
    with fl r show ?thesis by simp
  next
    case False
    with fl r have ax: "AddXs D m1 xs = Inr m'" by simp
    from AddXs_units [OF ax r(1), of pend'] r False show ?thesis
      by (simp add: vals_inv_cong [of m' m1])
  qed
qed

lemma MakeCsx_rows_inv:
  "MakeCsx_rows D m rs = Inr m' \<Longrightarrow> units_inv m g \<Longrightarrow> vals_inv m (concat g) \<Longrightarrow>
   units_inv m' (g @ concat (map (row_groups []) rs)) \<and>
   vals_inv m' (concat (g @ concat (map (row_groups []) rs))) \<and>
   spm m' = spm m \<and> length (values_buf m') = length (values_buf m)"
proof (induction rs arbitrary: m g)
  case Nil
  then show ?case by simp
next
  case (Cons row rs)
  show ?case
  proof (cases "row = []")
    case True
    define m1 where "m1 = (if new_row m = False then m\<lparr>new_row := True\<rparr>
                           else m\<lparr>empty_rows := empty_rows m + 1\<rparr>)"
    from Cons.prems(1) True have rec: "MakeCsx_rows D m1 rs = Inr m'"
      by (auto simp: m1_def split: if_splits)
    have u1: "units_inv m1 g" using Cons.prems(2) by (simp add: m1_def units_inv_def)
    have v1: "vals_inv m1 (concat g)" using Cons.prems(3) by (auto simp: m1_def vals_inv_def)
    from Cons.IH [OF rec u1 v1] True show ?thesis by (simp add: m1_def)
  next
    case False
    from Cons.prems(1) False obtain m1 where dr: "DoRow D m row = Inr m1" and
      rec: "MakeCsx_rows D (m1\<lparr>new_row := True\<rparr>) rs = Inr m'"
      by (auto split: sum.splits)
    note s1 = DoRow_inv [OF dr Cons.prems(2,3)]
    have u1: "units_inv (m1\<lparr>new_row := True\<rparr>) (g @ row_groups [] row)"
      using s1 by (simp add: units_inv_def)
    have v1: "vals_inv (m1\<lparr>new_row := True\<rparr>) (concat (g @ row_groups [] row))"
      using s1 by (auto simp: vals_inv_def)
    from Cons.IH [OF rec u1 v1] s1 show ?thesis by simp
  qed
qed

lemma groups_concat:
  "concat (concat (map (row_groups []) rs)) = concat (map (\<lambda>row. concat (map elem_vals row)) rs)"
  by (induction rs) (simp_all add: row_groups_concat)

lemma spm_groups_concat: "concat (spm_groups s) = spm_values s"
  by (simp add: spm_groups_def spm_values_def groups_concat)

text \<open>
  C1. When \<open>MakeCsx\<close> completes, the size bytes of the units written to the ctl
  stream are the lengths of the groups of values of the partition, unit by unit and in
  order; the groups concatenated are the values of the partition, which is what the
  values array holds; so the size bytes add up to the nonzero count, and
  \<open>values_idx\<close> equals it when the row loop is left.
\<close>

theorem MakeCsx_size_conservation:
  assumes ok: "MakeCsx D m = Inr (csx, m')"
  shows "unit_sizes (csx_ctl csx) (ctl_units m') = map length (spm_groups (spm m)) \<and>
         concat (spm_groups (spm m)) = spm_values (spm m) \<and>
         csx_values csx = map Some (spm_values (spm m)) \<and>
         sum_list (unit_sizes (csx_ctl csx) (ctl_units m')) = nr_nzeros (spm m) \<and>
         (\<exists>m1. MakeCsx_assemble D m = Inr m1 \<and> values_idx m1 = nr_nzeros (spm m))"
proof -
  define m0 where "m0 = m\<lparr>values_buf := replicate (nr_nzeros (spm m)) None, ctl_da := [],
                          ctl_units := [], values_idx := 0, new_row := False\<rparr>"
  from ok obtain m1 where
    asm: "MakeCsx_assemble D m = Inr m1" and
    cnt: "values_idx m1 = nr_nzeros (spm m1)" and
    csx: "csx = \<lparr>csx_nnz = nr_nzeros (spm m1), csx_nrows = GetNrRows (spm m1),
                  csx_ncols = nr_cols (spm m1), csx_row_start = row_start (spm m1),
                  csx_ctl_size = length (ctl_da m1), csx_ctl = ctl_da m1,
                  csx_values = values_buf m1\<rparr>" and
    m': "m' = m1\<lparr>ctl_da := [], values_buf := [], values_idx := 0\<rparr>"
    by (auto simp: MakeCsx_def split: sum.splits if_splits)
  from asm have rows: "MakeCsx_rows D m0 (rows (spm m)) = Inr m1"
    by (simp add: MakeCsx_assemble_def m0_def)
  have u0: "units_inv m0 []" by (simp add: units_inv_def unit_sizes_def m0_def)
  have v0: "vals_inv m0 (concat [])" by (simp add: vals_inv_def m0_def)
  from MakeCsx_rows_inv [OF rows u0 v0] have
    u: "units_inv m1 (spm_groups (spm m))" and
    v: "vals_inv m1 (spm_values (spm m))" and
    s: "spm m1 = spm m" and l: "length (values_buf m1) = nr_nzeros (spm m)"
    by (simp_all add: spm_groups_def [symmetric] spm_groups_concat m0_def)
  from u have us: "unit_sizes (ctl_da m1) (ctl_units m1) = map length (spm_groups (spm m))"
    by (simp add: units_inv_def)
  from v cnt s l have vals: "values_buf m1 = map Some (spm_values (spm m))"
    and n: "length (spm_values (spm m)) = nr_nzeros (spm m)"
    by (auto simp: vals_inv_def)
  have "sum_list (map length (spm_groups (spm m))) = length (concat (spm_groups (spm m)))"
    by (simp add: length_concat)
  with us vals n asm cnt s show ?thesis
    by (simp add: csx m' spm_groups_concat)
qed


theorem MakeCsx_size_conservation_witness:
  "\<exists>csx m'. MakeCsx ex_decls (CsxManager_init ex_spm) = Inr (csx, m') \<and>
      sum_list (unit_sizes (csx_ctl csx) (ctl_units m')) = 7 \<and>
      csx_values csx = map Some [10, 11, 12, 13, 14, 15, 16]"
proof -
  have "\<not> isl (MakeCsx ex_decls (CsxManager_init ex_spm))"
    by code_simp
  then obtain csx m' where e: "MakeCsx ex_decls (CsxManager_init ex_spm) = Inr (csx, m')"
    by (cases "MakeCsx ex_decls (CsxManager_init ex_spm)") auto
  have v: "spm_values ex_spm = [10, 11, 12, 13, 14, 15, 16]"
    by (simp add: spm_values_def ex_spm_def)
  have s: "spm (CsxManager_init ex_spm) = ex_spm"
    by (simp add: CsxManager_init_def)
  have n: "nr_nzeros ex_spm = 7"
    by (simp add: ex_spm_def)
  from MakeCsx_size_conservation [OF e] have
    "sum_list (unit_sizes (csx_ctl csx) (ctl_units m')) = 7 \<and>
     csx_values csx = map Some [10, 11, 12, 13, 14, 15, 16]"
    by (auto simp: s n v)
  with e show ?thesis by blast
qed

section \<open>The width of the deltas of a unit\<close>

lemma getDeltaSize_bytes: "DeltaSize_getBytes (getDeltaSize v) = GetDeltaSize v"
  by (simp add: getDeltaSize_def GetDeltaSize_cases Let_def)

text \<open>\<open>GetDeltaSize\<close> gives the least of the widths 1, 2, 4, 8 that holds the value.\<close>

lemma GetDeltaSize_fits: "unat v < 2 ^ (8 * GetDeltaSize v)"
proof -
  have "unat v < 2 ^ 64" using unsigned_less [of v] by simp
  then show ?thesis by (simp add: GetDeltaSize_cases)
qed

lemma GetDeltaSize_least:
  "w \<in> {1, 2, 4, 8} \<Longrightarrow> unat v < 2 ^ (8 * w) \<Longrightarrow> GetDeltaSize v \<le> w"
  by (auto simp: GetDeltaSize_cases)

text \<open>
  A unit that \<open>AddXs\<close> emits packs its deltas in the smallest-fit width, which is 1, 2
  or 4 bytes.
\<close>

lemma AddXs_width:
  assumes ok: "AddXs D m xs = Inr m'" and l: "1 < length xs"
  shows "\<exists>m3. put_deltas m3 (getDeltaSize (max_element (tl (DeltaEncode_csx (last_col m) xs))))
                  (tl (DeltaEncode_csx (last_col m) xs)) = Inr m' \<and>
              GetDeltaSize (max_element (tl (DeltaEncode_csx (last_col m) xs))) \<in> {1, 2, 4}"
proof -
  from l have ne: "xs \<noteq> []" by auto
  from ok ne l obtain m3 where
    pd: "put_deltas m3 (getDeltaSize (max_element (tl (DeltaEncode_csx (last_col m) xs))))
           (tl (DeltaEncode_csx (last_col m) xs)) = Inr m'"
    by (auto simp: AddXs_def Let_def split: sum.splits if_splits)
  from put_deltas_ctl [OF pd] have "getDeltaSize (max_element (tl (DeltaEncode_csx (last_col m) xs))) \<noteq> DELTA_U64"
    by simp
  then have "GetDeltaSize (max_element (tl (DeltaEncode_csx (last_col m) xs))) \<in> {1, 2, 4}"
    by (simp add: getDeltaSize_def GetDeltaSize_cases Let_def split: if_splits)
  with pd show ?thesis by blast
qed

text \<open>
  Claim C5. A unit whose largest delta needs the 8-byte width is never emitted: the
  \<^verbatim>\<open>switch\<close> of \<^verbatim>\<open>AddXs\<close> has no case for it, so \<open>AddXs\<close> fails on the two plain
  elements at the columns 1 and \<open>2^32 + 1\<close> of one row.
\<close>

theorem AddXs_u64_delta_fails:
  "isl (AddXs ex_decls ((CsxManager_init ex_spm_wide)\<lparr>last_col := 1\<rparr>) [1, 4294967297])"
proof (cases "AddXs ex_decls ((CsxManager_init ex_spm_wide)\<lparr>last_col := 1\<rparr>) [1, 4294967297]")
  case (Inl e)
  then show ?thesis by simp
next
  case (Inr m')
  from AddXs_width [OF Inr] have
    "GetDeltaSize (max_element (tl (DeltaEncode_csx 1 [1, 4294967297]))) \<in> {1, 2, 4}"
    by simp
  then show ?thesis
    by (simp add: max_element_def GetDeltaSize_cases)
qed

section \<open>The cap on pattern flags\<close>





section \<open>The failures of the assembler\<close>

















section \<open>Row jumps\<close>

text \<open>A pattern flag of at most 63 leaves the two upper bits of the flags byte clear.\<close>

lemma flag_no_rjmp: "unat (f :: u8) \<le> 63 \<Longrightarrow> \<not> bit f CTL_RJMP_BIT"
proof -
  assume a: "unat f \<le> 63"
  have "bit f 7 \<longleftrightarrow> bit (unat f) 7" by (simp add: bit_unsigned_iff)
  also have "\<dots> \<longleftrightarrow> odd (unat f div 2 ^ 7)" by (simp add: bit_iff_odd)
  also have "unat f div 2 ^ 7 = 0" using a by simp
  finally show ?thesis by (simp add: CTL_RJMP_BIT_def)
qed

lemma flag_no_rjmp_nr: "unat (f :: u8) \<le> 63 \<Longrightarrow> \<not> bit (set_bit_u8 f CTL_NR_BIT) CTL_RJMP_BIT"
  using flag_no_rjmp [of f]
  by (simp add: set_bit_u8_def CTL_NR_BIT_def CTL_RJMP_BIT_def bit_or_iff bit_push_bit_iff)

lemma flag_rjmp_set: "bit (set_bit_u8 f CTL_RJMP_BIT) CTL_RJMP_BIT"
  by (simp add: set_bit_u8_def CTL_RJMP_BIT_def bit_or_iff bit_push_bit_iff)

lemma flag_nr_set: "bit (set_bit_u8 f CTL_NR_BIT) CTL_NR_BIT"
  by (simp add: set_bit_u8_def CTL_NR_BIT_def bit_or_iff bit_push_bit_iff)

lemma rj_flags_bit:
  "unat f \<le> 63 \<Longrightarrow> bit (rj_flags m f) CTL_RJMP_BIT \<longleftrightarrow> new_row m \<and> empty_rows m \<noteq> 0"
  by (simp add: rj_flags_def flag_no_rjmp flag_no_rjmp_nr flag_rjmp_set)

text \<open>A unit written after \<open>m0\<close>, in either situation.\<close>

lemma unit_emit:
  assumes sh: "ctl_da m' = ctl_da m @ [rj_flags m f, sz] @ rj_bytes m @ body"
    and f: "unat f \<le> 63"
    and u: "ctl_units m' = ctl_units m @ [length (ctl_da m)]"
    and n: "new_row m' = False"
    and e: "empty_rows m' = (if new_row m then 0 else empty_rows m)"
    and s: "ctl_same m0 m \<or> ctl_started m0 m"
  shows "ctl_started m0 m'"
  using s
proof
  assume "ctl_same m0 m"
  then have eq: "ctl_da m = ctl_da m0" "ctl_units m = ctl_units m0" "new_row m = new_row m0"
    "empty_rows m = empty_rows m0" by (simp_all add: ctl_same_def)
  have "rj_flags m f = rj_flags m0 f" "rj_bytes m = rj_bytes m0"
    by (simp_all add: rj_flags_def rj_bytes_def eq)
  then show ?thesis
    unfolding ctl_started_def
    using sh f u n e eq
    apply -
    apply (rule exI [of _ f])
    apply (rule exI [of _ sz])
    apply (rule exI [of _ body])
    apply (rule exI [of _ "[]"])
    apply simp
    done
next
  assume "ctl_started m0 m"
  then obtain f0 sz0 rest offs where
    f0: "unat f0 \<le> 63" and
    c: "ctl_da m = ctl_da m0 @ [rj_flags m0 f0, sz0] @ rj_bytes m0 @ rest" and
    us: "ctl_units m = ctl_units m0 @ length (ctl_da m0) # offs" and
    o: "\<forall>off \<in> set offs. off < length (ctl_da m) \<and> \<not> bit (ctl_da m ! off) CTL_RJMP_BIT" and
    nn: "\<not> new_row m" and em: "empty_rows m = (if new_row m0 then 0 else empty_rows m0)"
    unfolding ctl_started_def by blast
  from nn have rf: "rj_flags m f = f" "rj_bytes m = []" by (simp_all add: rj_flags_def rj_bytes_def)
  have sh': "ctl_da m' = ctl_da m @ [f, sz] @ body" using sh rf by simp
  have new: "length (ctl_da m) < length (ctl_da m') \<and>
             \<not> bit (ctl_da m' ! length (ctl_da m)) CTL_RJMP_BIT"
    using flag_no_rjmp [OF f] by (simp add: sh')
  have old: "\<forall>off \<in> set offs. off < length (ctl_da m') \<and> \<not> bit (ctl_da m' ! off) CTL_RJMP_BIT"
    using o by (auto simp: sh' nth_append)
  have c': "ctl_da m' = ctl_da m0 @ [rj_flags m0 f0, sz0] @ rj_bytes m0 @ (rest @ [f, sz] @ body)"
    by (simp add: sh' c)
  have u': "ctl_units m' = ctl_units m0 @ length (ctl_da m0) # (offs @ [length (ctl_da m)])"
    by (simp add: u us)
  have o': "\<forall>off \<in> set (offs @ [length (ctl_da m)]).
              off < length (ctl_da m') \<and> \<not> bit (ctl_da m' ! off) CTL_RJMP_BIT"
    using old new by simp
  have e': "empty_rows m' = (if new_row m0 then 0 else empty_rows m0)"
    using e nn em by simp
  show ?thesis
    unfolding ctl_started_def
    apply (rule exI [of _ f0])
    apply (rule exI [of _ sz0])
    apply (rule exI [of _ "rest @ [f, sz] @ body"])
    apply (rule exI [of _ "offs @ [length (ctl_da m)]"])
    using f0 c' u' o' n e' by blast
qed

lemma AddXs_started:
  assumes ok: "AddXs D m xs = Inr m'" and fi: "flags_inv D m" and cap: "CTL_PATTERNS_MAX D \<le> 63"
    and s: "ctl_same m0 m \<or> ctl_started m0 m"
  shows "ctl_started m0 m' \<and> flags_inv D m'"
proof -
  from AddXs_ctl [OF ok] fi cap obtain f body where
    "ctl_da m' = ctl_da m @ [rj_flags m f, of_nat (length xs)] @ rj_bytes m @ body" "unat f \<le> 63"
    and r: "flags_inv D m'" "ctl_units m' = ctl_units m @ [length (ctl_da m)]"
      "new_row m' = False" "empty_rows m' = (if new_row m then 0 else empty_rows m)"
    by fastforce
  from unit_emit [OF this(1,2) r(2,3,4) s] r(1) show ?thesis by simp
qed

lemma AddPattern_started:
  assumes ok: "AddPattern D m (PatElem x p vs) jmp = Inr m'" and fi: "flags_inv D m"
    and cap: "CTL_PATTERNS_MAX D \<le> 63"
    and s: "ctl_same m0 m \<or> ctl_started m0 m"
  shows "ctl_started m0 m' \<and> flags_inv D m'"
proof -
  from AddPattern_ctl [OF ok] fi cap obtain f body where
    "ctl_da m' = ctl_da m @ [rj_flags m f, of_nat (GetSize p + (if jmp \<noteq> 0 then 1 else 0))]
                   @ rj_bytes m @ body" "unat f \<le> 63"
    and r: "flags_inv D m'" "ctl_units m' = ctl_units m @ [length (ctl_da m)]"
      "new_row m' = False" "empty_rows m' = (if new_row m then 0 else empty_rows m)"
    by fastforce
  from unit_emit [OF this(1,2) r(2,3,4) s] r(1) show ?thesis by simp
qed

lemma put_value_frame:
  "put_value m v = Inr m' \<Longrightarrow>
   ctl_da m' = ctl_da m \<and> ctl_units m' = ctl_units m \<and> new_row m' = new_row m \<and>
   empty_rows m' = empty_rows m \<and> patterns m' = patterns m"
  by (auto simp: put_value_def split: if_splits)

lemma put_values_frame:
  "put_values m l = Inr m' \<Longrightarrow>
   ctl_da m' = ctl_da m \<and> ctl_units m' = ctl_units m \<and> new_row m' = new_row m \<and>
   empty_rows m' = empty_rows m \<and> patterns m' = patterns m"
proof (induction l arbitrary: m)
  case Nil
  then show ?case by simp
next
  case (Cons v l)
  from Cons.prems obtain m1 where pv: "put_value m v = Inr m1" and r: "put_values m1 l = Inr m'"
    by (auto split: sum.splits)
  from Cons.IH [OF r] put_value_frame [OF pv] show ?case by simp
qed

lemma ctl_rel_frame:
  assumes "ctl_da m' = ctl_da m" "ctl_units m' = ctl_units m" "new_row m' = new_row m"
    "empty_rows m' = empty_rows m"
  shows "ctl_same m0 m' = ctl_same m0 m" "ctl_started m0 m' = ctl_started m0 m"
  using assms by (simp_all add: ctl_same_def ctl_started_def)

lemma flags_inv_frame: "patterns m' = patterns m \<Longrightarrow> flags_inv D m' = flags_inv D m"
  by (simp add: flags_inv_def)


lemma DoRow_loop_started:
  assumes cap: "CTL_PATTERNS_MAX D \<le> 63"
  shows "DoRow_loop D m xs row = Inr (m', xs') \<Longrightarrow> flags_inv D m \<Longrightarrow>
    flags_inv D m' \<and>
    (ctl_started m0 m \<longrightarrow> ctl_started m0 m') \<and>
    (ctl_same m0 m \<longrightarrow>
       ctl_started m0 m' \<or> (ctl_same m0 m' \<and> (row \<noteq> [] \<or> xs \<noteq> [] \<longrightarrow> xs' \<noteq> [])))"
proof (induction row arbitrary: m xs)
  case Nil
  then show ?case by simp
next
  case (Cons e rest)
  show ?case
  proof (cases e)
    case (PatElem x p vs)
    from Cons.prems(1) obtain jmp m1 m2 m3 where
      pp: "PreparePat D m xs = Inr (jmp, m1)" and
      ap: "AddPattern D m1 (PatElem x p vs) jmp = Inr m2" and
      pv: "put_values m2 (take (GetSize p) vs) = Inr m3" and
      lp: "DoRow_loop D m3 [] rest = Inr (m', xs')"
      by (auto simp: PatElem split: sum.splits if_splits)
    from PreparePat_cases [OF pp] consider "m1 = m" | "xs \<noteq> []" "AddXs D m xs = Inr m1" by blast
    then have a1: "flags_inv D m1 \<and> (ctl_same m0 m \<or> ctl_started m0 m \<longrightarrow> ctl_same m0 m1 \<or> ctl_started m0 m1)"
    proof cases
      case 1
      then show ?thesis using Cons.prems(2) by simp
    next
      case 2
      show ?thesis using AddXs_started [OF 2(2) Cons.prems(2) cap, of m0] AddXs_ctl [OF 2(2)] Cons.prems(2) by blast
    qed
    then have a2: "flags_inv D m2 \<and> (ctl_same m0 m \<or> ctl_started m0 m \<longrightarrow> ctl_started m0 m2)"
      using AddPattern_started [OF ap _ cap, of m0] AddPattern_ctl [OF ap] by blast
    note fr = put_values_frame [OF pv]
    from fr a2 have a3: "flags_inv D m3 \<and> (ctl_same m0 m \<or> ctl_started m0 m \<longrightarrow> ctl_started m0 m3)"
      using ctl_rel_frame(2) [of m3 m2 m0] flags_inv_frame [of m3 m2 D] by simp
    from Cons.IH [OF lp] a3 show ?thesis by blast
  next
    case (Elem x v)
    from Cons.prems(1) obtain m1 xs1 m2 where
      le: "length xs \<le> CTL_SIZE_MAX" and
      fl: "if length xs = CTL_SIZE_MAX then AddXs D m xs = Inr m1 \<and> xs1 = [] else m1 = m \<and> xs1 = xs" and
      pv: "put_value m1 v = Inr m2" and
      lp: "DoRow_loop D m2 (xs1 @ [x]) rest = Inr (m', xs')"
      by (auto simp: Elem split: sum.splits if_splits)
    have a1: "flags_inv D m1 \<and> (ctl_started m0 m \<longrightarrow> ctl_started m0 m1) \<and>
              (ctl_same m0 m \<longrightarrow> ctl_started m0 m1 \<or> ctl_same m0 m1)"
    proof (cases "length xs = CTL_SIZE_MAX")
      case True
      with fl have "AddXs D m xs = Inr m1" by simp
      from AddXs_started [OF this Cons.prems(2) cap, of m0] AddXs_ctl [OF this] Cons.prems(2)
      show ?thesis by blast
    next
      case False
      with fl show ?thesis using Cons.prems(2) by simp
    qed
    note fr = put_value_frame [OF pv]
    from fr a1 have a2: "flags_inv D m2 \<and> (ctl_started m0 m \<longrightarrow> ctl_started m0 m2) \<and>
              (ctl_same m0 m \<longrightarrow> ctl_started m0 m2 \<or> ctl_same m0 m2)"
      using ctl_rel_frame [of m2 m1 m0] flags_inv_frame [of m2 m1 D] by simp
    from Cons.IH [OF lp] a2 show ?thesis by auto
  qed
qed

lemma DoRow_started:
  assumes ok: "DoRow D m row = Inr m'" and row: "row \<noteq> []" and fi: "flags_inv D m"
    and cap: "CTL_PATTERNS_MAX D \<le> 63"
  shows "ctl_started m m' \<and> flags_inv D m'"
proof -
  from ok obtain m1 xs where
    lp: "DoRow_loop D (m\<lparr>last_col := 1\<rparr>) [] row = Inr (m1, xs)" and
    fl: "if length xs > 0 then AddXs D m1 xs = Inr m' else m' = m1"
    by (auto simp: DoRow_def split: sum.splits if_splits)
  have s: "ctl_same m (m\<lparr>last_col := 1\<rparr>)" by (simp add: ctl_same_def)
  have fi0: "flags_inv D (m\<lparr>last_col := 1\<rparr>)" using fi by (simp add: flags_inv_def)
  from DoRow_loop_started [OF cap lp fi0, of m] s row
  have r: "flags_inv D m1" "ctl_started m m1 \<or> (ctl_same m m1 \<and> xs \<noteq> [])" by auto
  show ?thesis
  proof (cases "length xs > 0")
    case True
    with fl have "AddXs D m1 xs = Inr m'" by simp
    from AddXs_started [OF this r(1) cap, of m] r(2) show ?thesis by blast
  next
    case False
    with fl r show ?thesis by auto
  qed
qed

lemma MakeCsx_rows_empty:
  "new_row m \<Longrightarrow>
   MakeCsx_rows D m (replicate e [] @ rs) = MakeCsx_rows D (m\<lparr>empty_rows := empty_rows m + of_nat e\<rparr>) rs"
proof (induction e arbitrary: m)
  case 0
  then show ?case by simp
next
  case (Suc e)
  from Suc.IH [of "m\<lparr>empty_rows := empty_rows m + 1\<rparr>"] Suc.prems
  show ?case by (simp add: ac_simps)
qed

lemma of_nat_u64_0: "e < 2 ^ 64 \<Longrightarrow> (of_nat e :: u64) = 0 \<longleftrightarrow> e = 0"
proof -
  assume "e < 2 ^ 64"
  then have "unat (of_nat e :: u64) = e" by (simp add: unat_of_nat)
  then show ?thesis by auto
qed

lemma AppendCtlHead_shape:
  "unat flg \<le> 63 \<Longrightarrow>
   \<exists>f rest. AppendCtlHead ctl nr_bit rj flg sz ucol w full
              = ctl @ [f, sz] @ (if rj \<noteq> 0 then da_put_ul [] rj else []) @ rest \<and>
            (bit f CTL_RJMP_BIT \<longleftrightarrow> rj \<noteq> 0)"
  by (auto simp: AppendCtlHead_def Let_def flag_no_rjmp flag_no_rjmp_nr flag_rjmp_set
        da_put_ul_append [of "_ @ _"] da_put_ul_append [of "_ # _"])

lemma UpdateNewRow_hpp_result:
  "fst (fst (UpdateNewRow_hpp mh)) = new_row_hpp mh \<and>
   snd (fst (UpdateNewRow_hpp mh))
     = (if new_row_hpp mh \<and> empty_rows_hpp mh \<noteq> 0 then empty_rows_hpp mh + 1 else 0) \<and>
   empty_rows_hpp (snd (UpdateNewRow_hpp mh)) = (if new_row_hpp mh then 0 else empty_rows_hpp mh) \<and>
   new_row_hpp (snd (UpdateNewRow_hpp mh)) = False"
  by (simp add: UpdateNewRow_hpp_def Let_def)

text \<open>
  A non-empty row, \<open>e\<close> empty rows and another non-empty row, from a state of the row
  loop: the first unit of the second row carries the row jump.
\<close>

lemma row_jump_rows:
  assumes ok: "MakeCsx_rows D m (r1 # replicate e [] @ [r2]) = Inr m'"
    and r1: "r1 \<noteq> []" and r2: "r2 \<noteq> []"
    and inv: "new_row m \<or> empty_rows m = 0"
    and fi: "flags_inv D m" and cap: "CTL_PATTERNS_MAX D \<le> 63"
    and e: "e < 2 ^ 64"
  shows "\<exists>m1 f sz rest offs.
            DoRow D m r1 = Inr m1 \<and>
            ctl_da m' = ctl_da m1 @ [f, sz]
                          @ (if e \<noteq> 0 then da_put_ul [] (of_nat e + 1) else []) @ rest \<and>
            ctl_units m' = ctl_units m1 @ length (ctl_da m1) # offs \<and>
            (bit f CTL_RJMP_BIT \<longleftrightarrow> e \<noteq> 0) \<and>
            (\<forall>off \<in> set offs. off < length (ctl_da m') \<and> \<not> bit (ctl_da m' ! off) CTL_RJMP_BIT) \<and>
            empty_rows m' = 0 \<and> new_row m' \<and> flags_inv D m'"
proof -
  from ok r1 obtain m1 where
    d1: "DoRow D m r1 = Inr m1" and
    rest: "MakeCsx_rows D (m1\<lparr>new_row := True\<rparr>) (replicate e [] @ [r2]) = Inr m'"
    by (auto split: sum.splits)
  from DoRow_started [OF d1 r1 fi cap] have s1: "ctl_started m m1" and f1: "flags_inv D m1"
    by simp_all
  from s1 inv have e1: "empty_rows m1 = 0" by (auto simp: ctl_started_def)
  define m2 where "m2 = m1\<lparr>new_row := True, empty_rows := of_nat e\<rparr>"
  have m2: "ctl_da m2 = ctl_da m1" "ctl_units m2 = ctl_units m1" "new_row m2"
    "empty_rows m2 = of_nat e" "flags_inv D m2"
    using f1 by (simp_all add: m2_def flags_inv_def)
  have "MakeCsx_rows D (m1\<lparr>new_row := True\<rparr>) (replicate e [] @ [r2]) = MakeCsx_rows D m2 [r2]"
    by (subst MakeCsx_rows_empty) (simp_all add: m2_def e1)
  with rest r2 obtain m3 where
    d2: "DoRow D m2 r2 = Inr m3" and m': "m' = m3\<lparr>new_row := True\<rparr>"
    by (auto split: sum.splits)
  from DoRow_started [OF d2 r2 m2(5) cap] have s2: "ctl_started m2 m3" and f3: "flags_inv D m3"
    by simp_all
  from s2 obtain f sz rest offs where
    f: "unat f \<le> 63" and
    c: "ctl_da m3 = ctl_da m2 @ [rj_flags m2 f, sz] @ rj_bytes m2 @ rest" and
    u: "ctl_units m3 = ctl_units m2 @ length (ctl_da m2) # offs" and
    o: "\<forall>off \<in> set offs. off < length (ctl_da m3) \<and> \<not> bit (ctl_da m3 ! off) CTL_RJMP_BIT" and
    e3: "empty_rows m3 = (if new_row m2 then 0 else empty_rows m2)"
    unfolding ctl_started_def by blast
  have rb: "rj_bytes m2 = (if e \<noteq> 0 then da_put_ul [] (of_nat e + 1) else [])"
    by (simp add: rj_bytes_def m2 of_nat_u64_0 [OF e])
  have bf: "bit (rj_flags m2 f) CTL_RJMP_BIT \<longleftrightarrow> e \<noteq> 0"
    by (simp add: rj_flags_bit [OF f] m2 of_nat_u64_0 [OF e])
  show ?thesis
    apply (rule exI [of _ m1])
    apply (rule exI [of _ "rj_flags m2 f"])
    apply (rule exI [of _ sz])
    apply (rule exI [of _ rest])
    apply (rule exI [of _ offs])
    using d1 c u o e3 bf f3 m2(1-3) by (simp add: m' rb flags_inv_def)
qed


lemma MakeCsx_rows_append:
  "MakeCsx_rows D m (a @ b) =
     (case MakeCsx_rows D m a of Inl e \<Rightarrow> Inl e | Inr m1 \<Rightarrow> MakeCsx_rows D m1 b)"
  by (induction a arbitrary: m) (auto split: sum.splits)

text \<open>The row loop only appends to the ctl stream, and keeps the invariants.\<close>

lemma MakeCsx_rows_pres:
  assumes cap: "CTL_PATTERNS_MAX D \<le> 63"
  shows "MakeCsx_rows D m rs = Inr m' \<Longrightarrow> flags_inv D m \<Longrightarrow> new_row m \<or> empty_rows m = 0 \<Longrightarrow>
    flags_inv D m' \<and> (new_row m' \<or> empty_rows m' = 0) \<and>
    (\<exists>c u. ctl_da m' = ctl_da m @ c \<and> ctl_units m' = ctl_units m @ u)"
proof (induction rs arbitrary: m)
  case Nil
  then show ?case by simp
next
  case (Cons row rs)
  show ?case
  proof (cases "row = []")
    case True
    show ?thesis
    proof (cases "new_row m")
      case False
      with Cons.prems True have r: "MakeCsx_rows D (m\<lparr>new_row := True\<rparr>) rs = Inr m'" by simp
      have "flags_inv D (m\<lparr>new_row := True\<rparr>)" using Cons.prems(2) by (simp add: flags_inv_def)
      from Cons.IH [OF r this] show ?thesis by simp
    next
      case nr: True
      with Cons.prems True have r: "MakeCsx_rows D (m\<lparr>empty_rows := empty_rows m + 1\<rparr>) rs = Inr m'"
        by simp
      have "flags_inv D (m\<lparr>empty_rows := empty_rows m + 1\<rparr>)"
        using Cons.prems(2) by (simp add: flags_inv_def)
      from Cons.IH [OF r this] nr show ?thesis by simp
    qed
  next
    case False
    with Cons.prems(1) obtain m1 where d: "DoRow D m row = Inr m1"
      and r: "MakeCsx_rows D (m1\<lparr>new_row := True\<rparr>) rs = Inr m'"
      by (auto split: sum.splits)
    from DoRow_started [OF d False Cons.prems(2) cap]
    have s: "ctl_started m m1" and f1: "flags_inv D m1" by simp_all
    from s obtain f sz rest offs where
      "ctl_da m1 = ctl_da m @ [rj_flags m f, sz] @ rj_bytes m @ rest"
      "ctl_units m1 = ctl_units m @ length (ctl_da m) # offs"
      unfolding ctl_started_def by blast
    then have cu: "ctl_da m1 = ctl_da m @ ([rj_flags m f, sz] @ rj_bytes m @ rest)"
      "ctl_units m1 = ctl_units m @ (length (ctl_da m) # offs)" by simp_all
    have "flags_inv D (m1\<lparr>new_row := True\<rparr>)" using f1 by (simp add: flags_inv_def)
    from Cons.IH [OF r this] obtain c' u' where
      k: "flags_inv D m'" "new_row m' \<or> empty_rows m' = 0"
         "ctl_da m' = ctl_da (m1\<lparr>new_row := True\<rparr>) @ c'"
         "ctl_units m' = ctl_units (m1\<lparr>new_row := True\<rparr>) @ u'" by auto
    have "ctl_da m' = ctl_da m @ (([rj_flags m f, sz] @ rj_bytes m @ rest) @ c')"
      "ctl_units m' = ctl_units m @ ((length (ctl_da m) # offs) @ u')"
      using k(3,4) cu by simp_all
    with k(1,2) show ?thesis by blast
  qed
qed

lemma units_inv_length: "units_inv m g \<Longrightarrow> length (ctl_units m) = length g"
proof -
  assume "units_inv m g"
  then have "unit_sizes (ctl_da m) (ctl_units m) = map length g" by (simp add: units_inv_def)
  then have "length (unit_sizes (ctl_da m) (ctl_units m)) = length (map length g)" by simp
  then show ?thesis by (simp add: unit_sizes_def)
qed

lemma row_jump_between:
  assumes ok: "MakeCsx D m = Inr (csx, m')"
    and rs: "rows (spm m) = pre @ r1 # replicate e [] @ r2 # post"
    and r1: "r1 \<noteq> []" and r2: "r2 \<noteq> []"
    and fi: "flags_inv D m" and er: "empty_rows m = 0"
    and cap: "CTL_PATTERNS_MAX D \<le> 63" and e: "e < 2 ^ 64"
  shows "\<exists>c1 f sz rest us1 offs us2.
            csx_ctl csx = c1 @ [f, sz]
                            @ (if e \<noteq> 0 then da_put_ul [] (of_nat e + 1) else []) @ rest \<and>
            ctl_units m' = us1 @ length c1 # offs @ us2 \<and>
            length us1 = length (concat (map (row_groups []) (pre @ [r1]))) \<and>
            Suc (length offs) = length (row_groups [] r2) \<and>
            (bit f CTL_RJMP_BIT \<longleftrightarrow> e \<noteq> 0) \<and>
            (\<forall>off \<in> set offs. \<not> bit (csx_ctl csx ! off) CTL_RJMP_BIT)"
proof -
  define m0 where "m0 = m\<lparr>values_buf := replicate (nr_nzeros (spm m)) None, ctl_da := [],
                          ctl_units := [], values_idx := 0, new_row := False\<rparr>"
  from ok obtain mE where
    rows: "MakeCsx_rows D m0 (rows (spm m)) = Inr mE" and
    cs: "csx_ctl csx = ctl_da mE" and us: "ctl_units m' = ctl_units mE"
    by (auto simp: MakeCsx_def MakeCsx_assemble_def m0_def [symmetric] split: sum.splits if_splits)
  have f0: "flags_inv D m0" using fi by (simp add: m0_def flags_inv_def)
  have i0: "new_row m0 \<or> empty_rows m0 = 0" using er by (simp add: m0_def)
  have u0: "units_inv m0 []" by (simp add: m0_def units_inv_def unit_sizes_def)
  have v0: "vals_inv m0 (concat [])" by (simp add: m0_def vals_inv_def)
  define seg where "seg = r1 # replicate e [] @ [r2]"
  have sp: "rows (spm m) = pre @ seg @ post" using rs by (simp add: seg_def)
  from rows have "MakeCsx_rows D m0 (pre @ seg @ post) = Inr mE" by (simp only: sp)
  then obtain ma mb where
    a: "MakeCsx_rows D m0 pre = Inr ma" and
    b0: "MakeCsx_rows D ma seg = Inr mb" and
    c: "MakeCsx_rows D mb post = Inr mE"
    by (auto simp: MakeCsx_rows_append split: sum.splits)
  from b0 have b: "MakeCsx_rows D ma (r1 # replicate e [] @ [r2]) = Inr mb"
    by (simp only: seg_def)
  from MakeCsx_rows_pres [OF cap a f0 i0] have fa: "flags_inv D ma"
    and ia: "new_row ma \<or> empty_rows ma = 0" by simp_all
  from row_jump_rows [OF b r1 r2 ia fa cap e] obtain m1 f sz rest offs where
    d1: "DoRow D ma r1 = Inr m1" and
    cb: "ctl_da mb = ctl_da m1 @ [f, sz]
           @ (if e \<noteq> 0 then da_put_ul [] (of_nat e + 1) else []) @ rest" and
    ub: "ctl_units mb = ctl_units m1 @ length (ctl_da m1) # offs" and
    bf: "bit f CTL_RJMP_BIT \<longleftrightarrow> e \<noteq> 0" and
    ob: "\<forall>off \<in> set offs. off < length (ctl_da mb) \<and> \<not> bit (ctl_da mb ! off) CTL_RJMP_BIT" and
    nb: "new_row mb" and fb: "flags_inv D mb"
    by blast
  from MakeCsx_rows_pres [OF cap c fb] nb obtain c2 u2 where
    cE: "ctl_da mE = ctl_da mb @ c2" and uE: "ctl_units mE = ctl_units mb @ u2" by auto
  have "MakeCsx_rows D ma [r1] = Inr (m1\<lparr>new_row := True\<rparr>)"
    using d1 r1 by simp
  then have p1: "MakeCsx_rows D m0 (pre @ [r1]) = Inr (m1\<lparr>new_row := True\<rparr>)"
    using a by (simp only: MakeCsx_rows_append sum.case)
  have "MakeCsx_rows D m0 (pre @ seg) = Inr mb"
    using a b0 by (simp add: MakeCsx_rows_append)
  then have p2: "MakeCsx_rows D m0 (pre @ (r1 # replicate e [] @ [r2])) = Inr mb"
    by (simp only: seg_def)
  from MakeCsx_rows_inv [OF p1 u0 v0]
  have "units_inv (m1\<lparr>new_row := True\<rparr>) (concat (map (row_groups []) (pre @ [r1])))" by simp
  from units_inv_length [OF this]
  have l1: "length (ctl_units m1) = length (concat (map (row_groups []) (pre @ [r1])))" by simp
  from MakeCsx_rows_inv [OF p2 u0 v0]
  have "units_inv mb (concat (map (row_groups []) (pre @ (r1 # replicate e [] @ [r2]))))" by simp
  from units_inv_length [OF this]
  have "length (ctl_units mb)
      = length (concat (map (row_groups []) (pre @ (r1 # replicate e [] @ [r2]))))" .
  moreover have "concat (map (row_groups []) (replicate e [])) = ([] :: 'a list list)"
    by (induction e) simp_all
  ultimately have l2: "Suc (length offs) = length (row_groups [] r2)"
    using l1 ub by simp
  have oE: "\<forall>off \<in> set offs. \<not> bit (ctl_da mE ! off) CTL_RJMP_BIT"
    using ob by (auto simp: cE nth_append)
  show ?thesis
    apply (rule exI [of _ "ctl_da m1"])
    apply (rule exI [of _ f])
    apply (rule exI [of _ sz])
    apply (rule exI [of _ "rest @ c2"])
    apply (rule exI [of _ "ctl_units m1"])
    apply (rule exI [of _ offs])
    apply (rule exI [of _ u2])
    using cb ub bf oE l1 l2 by (simp add: cs us cE uE)
qed

text \<open>
  The first non-empty row of the row loop, after \<open>k\<close> empty rows: the first of them only
  marks the new row, the others are counted.
\<close>

lemma row_jump_first_rows:
  assumes ok: "MakeCsx_rows D m (replicate k [] @ [r]) = Inr m'"
    and r: "r \<noteq> []" and nn: "\<not> new_row m" and er: "empty_rows m = 0"
    and fi: "flags_inv D m" and cap: "CTL_PATTERNS_MAX D \<le> 63" and k: "k < 2 ^ 64"
  shows "\<exists>f sz rest offs.
            ctl_da m' = ctl_da m @ [f, sz]
                          @ (if 2 \<le> k then da_put_ul [] (of_nat k) else []) @ rest \<and>
            ctl_units m' = ctl_units m @ length (ctl_da m) # offs \<and>
            (bit f CTL_RJMP_BIT \<longleftrightarrow> 2 \<le> k) \<and>
            (\<forall>off \<in> set offs. off < length (ctl_da m') \<and> \<not> bit (ctl_da m' ! off) CTL_RJMP_BIT) \<and>
            new_row m' \<and> flags_inv D m'"
proof -
  define m2 where "m2 = (if k = 0 then m else m\<lparr>new_row := True, empty_rows := of_nat (k - 1)\<rparr>)"
  have m2: "ctl_da m2 = ctl_da m" "ctl_units m2 = ctl_units m" "flags_inv D m2"
    "new_row m2 \<longleftrightarrow> k \<noteq> 0" "empty_rows m2 = (if k = 0 then 0 else of_nat (k - 1))"
    using fi nn er by (simp_all add: m2_def flags_inv_def)
  have run: "MakeCsx_rows D m (replicate k [] @ [r]) = MakeCsx_rows D m2 [r]"
  proof (cases k)
    case 0
    then show ?thesis by (simp add: m2_def)
  next
    case (Suc j)
    have "MakeCsx_rows D m (replicate (Suc j) [] @ [r])
            = MakeCsx_rows D (m\<lparr>new_row := True\<rparr>) (replicate j [] @ [r])"
      using nn by simp
    also have "\<dots> = MakeCsx_rows D (m\<lparr>new_row := True, empty_rows := of_nat j\<rparr>) [r]"
      by (subst MakeCsx_rows_empty) (simp_all add: er)
    finally show ?thesis by (simp add: Suc m2_def)
  qed
  with ok r obtain m3 where
    d2: "DoRow D m2 r = Inr m3" and m': "m' = m3\<lparr>new_row := True\<rparr>"
    by (auto split: sum.splits)
  from DoRow_started [OF d2 r m2(3) cap] have s2: "ctl_started m2 m3" and f3: "flags_inv D m3"
    by simp_all
  from s2 obtain f sz rest offs where
    f: "unat f \<le> 63" and
    c: "ctl_da m3 = ctl_da m2 @ [rj_flags m2 f, sz] @ rj_bytes m2 @ rest" and
    u: "ctl_units m3 = ctl_units m2 @ length (ctl_da m2) # offs" and
    o: "\<forall>off \<in> set offs. off < length (ctl_da m3) \<and> \<not> bit (ctl_da m3 ! off) CTL_RJMP_BIT"
    unfolding ctl_started_def by blast
  have k1: "k - 1 < 2 ^ 64" using k by simp
  have nz: "new_row m2 \<and> empty_rows m2 \<noteq> 0 \<longleftrightarrow> 2 \<le> k"
  proof (cases k)
    case 0
    then show ?thesis by (simp add: m2)
  next
    case (Suc j)
    then have "j < 2 ^ 64" using k by simp
    from of_nat_u64_0 [OF this] show ?thesis by (auto simp: m2 Suc)
  qed
  have val: "2 \<le> k \<Longrightarrow> empty_rows m2 + 1 = of_nat k"
    by (cases k) (simp_all add: m2)
  have rb: "rj_bytes m2 = (if 2 \<le> k then da_put_ul [] (of_nat k) else [])"
    using nz val by (simp add: rj_bytes_def)
  have bf: "bit (rj_flags m2 f) CTL_RJMP_BIT \<longleftrightarrow> 2 \<le> k"
    using nz by (simp add: rj_flags_bit [OF f])
  show ?thesis
    apply (rule exI [of _ "rj_flags m2 f"])
    apply (rule exI [of _ sz])
    apply (rule exI [of _ rest])
    apply (rule exI [of _ offs])
    using c u o bf f3 m2(1,2) by (simp add: m' rb flags_inv_def)
qed

lemma row_jump_leading:
  assumes ok: "MakeCsx D m = Inr (csx, m')"
    and rs: "rows (spm m) = replicate k [] @ r # post"
    and r: "r \<noteq> []"
    and fi: "flags_inv D m" and er: "empty_rows m = 0"
    and cap: "CTL_PATTERNS_MAX D \<le> 63" and k: "k < 2 ^ 64"
  shows "\<exists>f sz rest offs us2.
            csx_ctl csx = [f, sz] @ (if 2 \<le> k then da_put_ul [] (of_nat k) else []) @ rest \<and>
            ctl_units m' = 0 # offs @ us2 \<and>
            Suc (length offs) = length (row_groups [] r) \<and>
            (bit f CTL_RJMP_BIT \<longleftrightarrow> 2 \<le> k) \<and>
            (\<forall>off \<in> set offs. \<not> bit (csx_ctl csx ! off) CTL_RJMP_BIT)"
proof -
  define m0 where "m0 = m\<lparr>values_buf := replicate (nr_nzeros (spm m)) None, ctl_da := [],
                          ctl_units := [], values_idx := 0, new_row := False\<rparr>"
  from ok obtain mE where
    rows: "MakeCsx_rows D m0 (rows (spm m)) = Inr mE" and
    cs: "csx_ctl csx = ctl_da mE" and us: "ctl_units m' = ctl_units mE"
    by (auto simp: MakeCsx_def MakeCsx_assemble_def m0_def [symmetric] split: sum.splits if_splits)
  have f0: "flags_inv D m0" using fi by (simp add: m0_def flags_inv_def)
  have n0: "\<not> new_row m0" and e0: "empty_rows m0 = 0" using er by (simp_all add: m0_def)
  have u0: "units_inv m0 []" by (simp add: m0_def units_inv_def unit_sizes_def)
  have v0: "vals_inv m0 (concat [])" by (simp add: m0_def vals_inv_def)
  define seg where "seg = replicate k [] @ [r]"
  have sp: "rows (spm m) = seg @ post" using rs by (simp add: seg_def)
  from rows have "MakeCsx_rows D m0 (seg @ post) = Inr mE" by (simp only: sp)
  then obtain mb where
    b0: "MakeCsx_rows D m0 seg = Inr mb" and
    c: "MakeCsx_rows D mb post = Inr mE"
    by (auto simp: MakeCsx_rows_append split: sum.splits)
  from b0 have b: "MakeCsx_rows D m0 (replicate k [] @ [r]) = Inr mb" by (simp only: seg_def)
  from row_jump_first_rows [OF b r n0 e0 f0 cap k] obtain f sz rest offs where
    cb: "ctl_da mb = ctl_da m0 @ [f, sz]
           @ (if 2 \<le> k then da_put_ul [] (of_nat k) else []) @ rest" and
    ub: "ctl_units mb = ctl_units m0 @ length (ctl_da m0) # offs" and
    bf: "bit f CTL_RJMP_BIT \<longleftrightarrow> 2 \<le> k" and
    ob: "\<forall>off \<in> set offs. off < length (ctl_da mb) \<and> \<not> bit (ctl_da mb ! off) CTL_RJMP_BIT" and
    nb: "new_row mb" and fb: "flags_inv D mb"
    by blast
  from MakeCsx_rows_pres [OF cap c fb] nb obtain c2 u2 where
    cE: "ctl_da mE = ctl_da mb @ c2" and uE: "ctl_units mE = ctl_units mb @ u2" by auto
  from MakeCsx_rows_inv [OF b u0 v0]
  have "units_inv mb (concat (map (row_groups []) (replicate k [] @ [r])))" by simp
  from units_inv_length [OF this]
  have "length (ctl_units mb) = length (concat (map (row_groups []) (replicate k [] @ [r])))" .
  moreover have "concat (map (row_groups []) (replicate k [])) = ([] :: 'a list list)"
    by (induction k) simp_all
  ultimately have l2: "Suc (length offs) = length (row_groups [] r)"
    using ub by (simp add: m0_def)
  have oE: "\<forall>off \<in> set offs. \<not> bit (ctl_da mE ! off) CTL_RJMP_BIT"
    using ob by (auto simp: cE nth_append)
  show ?thesis
    apply (rule exI [of _ f])
    apply (rule exI [of _ sz])
    apply (rule exI [of _ "rest @ c2"])
    apply (rule exI [of _ offs])
    apply (rule exI [of _ u2])
    using cb ub bf oE l2 by (simp add: cs us cE uE m0_def)
qed

text \<open>\<open>UpdateNewRow\<close> of csx.cc on the header that was just allocated.\<close>

lemma UpdateNewRow_unit:
  assumes c: "ctl_da a = c @ [fl, s]" and f: "unat fl \<le> 63"
  shows "(\<exists>g. ctl_da (UpdateNewRow a (length c))
               = c @ [g, s] @ (if new_row a \<and> empty_rows a \<noteq> 0
                                then da_put_ul [] (empty_rows a + 1) else []) \<and>
              (bit g CTL_RJMP_BIT \<longleftrightarrow> new_row a \<and> empty_rows a \<noteq> 0)) \<and>
         empty_rows (UpdateNewRow a (length c)) = (if new_row a then 0 else empty_rows a)"
  using UpdateNewRow_ctl [OF c] UpdateNewRow_frame [of a "length c"] rj_flags_bit [OF f, of a]
  by (auto simp: rj_bytes_def)

text \<open>
  Claim C9, made precise. In the ctl stream that \<open>MakeCsx\<close> returns, the \<open>CTL_RJMP\<close> bit
  is set exactly in these unit headers, and there the two header bytes are followed by
  the row-jump varint: the first unit of a non-empty row \<open>r2\<close> that comes \<open>e \<ge> 1\<close> empty
  rows after a non-empty row \<open>r1\<close>, with the varint of \<open>e + 1\<close>; and the first unit of
  the first non-empty row \<open>r\<close> when \<open>k \<ge> 2\<close> empty rows precede it, with the varint of
  \<open>k\<close> (the first empty row of a partition is not counted). The other units of these
  rows do not have the bit. \<open>UpdateNewRow\<close> sets the bit and writes the varint of
  \<open>empty_rows + 1\<close> exactly when a new row starts with \<open>empty_rows \<noteq> 0\<close>, and resets the
  counter; in CsxManager.hpp it returns the row jump \<open>empty_rows + 1\<close> in that case (0
  otherwise), and the header that \<open>AppendCtlHead\<close> writes has the bit and the varint
  exactly when the row jump is not 0.
\<close>

theorem row_jump_header:
  assumes ok: "MakeCsx D m = Inr (csx, m')"
    and fi: "flags_inv D m" and er: "empty_rows m = 0" and cap: "CTL_PATTERNS_MAX D \<le> 63"
  shows "(rows (spm m) = pre @ r1 # replicate e [] @ r2 # post \<and> r1 \<noteq> [] \<and> r2 \<noteq> [] \<and>
          e < 2 ^ 64 \<longrightarrow>
          (\<exists>c1 f sz rest us1 offs us2.
            csx_ctl csx = c1 @ [f, sz]
                            @ (if e \<noteq> 0 then da_put_ul [] (of_nat e + 1) else []) @ rest \<and>
            ctl_units m' = us1 @ length c1 # offs @ us2 \<and>
            length us1 = length (concat (map (row_groups []) (pre @ [r1]))) \<and>
            Suc (length offs) = length (row_groups [] r2) \<and>
            (bit f CTL_RJMP_BIT \<longleftrightarrow> e \<noteq> 0) \<and>
            (\<forall>off \<in> set offs. \<not> bit (csx_ctl csx ! off) CTL_RJMP_BIT))) \<and>
         (rows (spm m) = replicate k [] @ r # post' \<and> r \<noteq> [] \<and> k < 2 ^ 64 \<longrightarrow>
          (\<exists>f sz rest offs us2.
            csx_ctl csx = [f, sz] @ (if 2 \<le> k then da_put_ul [] (of_nat k) else []) @ rest \<and>
            ctl_units m' = 0 # offs @ us2 \<and>
            Suc (length offs) = length (row_groups [] r) \<and>
            (bit f CTL_RJMP_BIT \<longleftrightarrow> 2 \<le> k) \<and>
            (\<forall>off \<in> set offs. \<not> bit (csx_ctl csx ! off) CTL_RJMP_BIT))) \<and>
         (ctl_da a = c @ [fl, s] \<and> unat fl \<le> 63 \<longrightarrow>
          (\<exists>g. ctl_da (UpdateNewRow a (length c))
                  = c @ [g, s] @ (if new_row a \<and> empty_rows a \<noteq> 0
                                   then da_put_ul [] (empty_rows a + 1) else []) \<and>
               (bit g CTL_RJMP_BIT \<longleftrightarrow> new_row a \<and> empty_rows a \<noteq> 0)) \<and>
          empty_rows (UpdateNewRow a (length c)) = (if new_row a then 0 else empty_rows a)) \<and>
         snd (fst (UpdateNewRow_hpp mh))
           = (if new_row_hpp mh \<and> empty_rows_hpp mh \<noteq> 0 then empty_rows_hpp mh + 1 else 0) \<and>
         empty_rows_hpp (snd (UpdateNewRow_hpp mh))
           = (if new_row_hpp mh then 0 else empty_rows_hpp mh) \<and>
         (unat flg \<le> 63 \<longrightarrow>
            (\<exists>f rest. AppendCtlHead ctl nr_bit rj flg sz' ucol w full
                        = ctl @ [f, sz'] @ (if rj \<noteq> 0 then da_put_ul [] rj else []) @ rest \<and>
                      (bit f CTL_RJMP_BIT \<longleftrightarrow> rj \<noteq> 0)))"
proof (intro conjI impI)
  assume "rows (spm m) = pre @ r1 # replicate e [] @ r2 # post \<and> r1 \<noteq> [] \<and> r2 \<noteq> [] \<and> e < 2 ^ 64"
  then have rs: "rows (spm m) = pre @ r1 # replicate e [] @ r2 # post" and r1: "r1 \<noteq> []"
    and r2: "r2 \<noteq> []" and e: "e < 2 ^ 64" by simp_all
  show "\<exists>c1 f sz rest us1 offs us2.
            csx_ctl csx = c1 @ [f, sz]
                            @ (if e \<noteq> 0 then da_put_ul [] (of_nat e + 1) else []) @ rest \<and>
            ctl_units m' = us1 @ length c1 # offs @ us2 \<and>
            length us1 = length (concat (map (row_groups []) (pre @ [r1]))) \<and>
            Suc (length offs) = length (row_groups [] r2) \<and>
            (bit f CTL_RJMP_BIT \<longleftrightarrow> e \<noteq> 0) \<and>
            (\<forall>off \<in> set offs. \<not> bit (csx_ctl csx ! off) CTL_RJMP_BIT)"
    by (rule row_jump_between [OF ok rs r1 r2 fi er cap e])
next
  assume "rows (spm m) = replicate k [] @ r # post' \<and> r \<noteq> [] \<and> k < 2 ^ 64"
  then have rs: "rows (spm m) = replicate k [] @ r # post'" and r: "r \<noteq> []"
    and k: "k < 2 ^ 64" by simp_all
  show "\<exists>f sz rest offs us2.
            csx_ctl csx = [f, sz] @ (if 2 \<le> k then da_put_ul [] (of_nat k) else []) @ rest \<and>
            ctl_units m' = 0 # offs @ us2 \<and>
            Suc (length offs) = length (row_groups [] r) \<and>
            (bit f CTL_RJMP_BIT \<longleftrightarrow> 2 \<le> k) \<and>
            (\<forall>off \<in> set offs. \<not> bit (csx_ctl csx ! off) CTL_RJMP_BIT)"
    by (rule row_jump_leading [OF ok rs r fi er cap k])
next
  assume h: "ctl_da a = c @ [fl, s] \<and> unat fl \<le> 63"
  from h have c: "ctl_da a = c @ [fl, s]" and f: "unat fl \<le> 63" by simp_all
  from UpdateNewRow_unit [OF c f]
  show "\<exists>g. ctl_da (UpdateNewRow a (length c))
                  = c @ [g, s] @ (if new_row a \<and> empty_rows a \<noteq> 0
                                   then da_put_ul [] (empty_rows a + 1) else []) \<and>
               (bit g CTL_RJMP_BIT \<longleftrightarrow> new_row a \<and> empty_rows a \<noteq> 0)" by simp
  from UpdateNewRow_unit [OF c f]
  show "empty_rows (UpdateNewRow a (length c)) = (if new_row a then 0 else empty_rows a)" by simp
next
  show "snd (fst (UpdateNewRow_hpp mh))
           = (if new_row_hpp mh \<and> empty_rows_hpp mh \<noteq> 0 then empty_rows_hpp mh + 1 else 0)"
    using UpdateNewRow_hpp_result [of mh] by simp
next
  show "empty_rows_hpp (snd (UpdateNewRow_hpp mh))
           = (if new_row_hpp mh then 0 else empty_rows_hpp mh)"
    using UpdateNewRow_hpp_result [of mh] by simp
next
  assume "unat flg \<le> 63"
  then show "\<exists>f rest. AppendCtlHead ctl nr_bit rj flg sz' ucol w full
                        = ctl @ [f, sz'] @ (if rj \<noteq> 0 then da_put_ul [] rj else []) @ rest \<and>
                      (bit f CTL_RJMP_BIT \<longleftrightarrow> rj \<noteq> 0)"
    by (rule AppendCtlHead_shape)
qed

theorem row_jump_header_witness:
  "\<exists>csx m' c1 f sz rest g sz2 rest2.
     MakeCsx ex_decls (CsxManager_init ex_spm) = Inr (csx, m') \<and>
     csx_ctl csx = c1 @ [f, sz] @ da_put_ul [] 3 @ rest \<and> bit f CTL_RJMP_BIT \<and>
     csx_ctl csx = [g, sz2] @ rest2 \<and> \<not> bit g CTL_RJMP_BIT"
proof -
  have "\<not> isl (MakeCsx ex_decls (CsxManager_init ex_spm))"
    by code_simp
  then obtain csx m' where ok: "MakeCsx ex_decls (CsxManager_init ex_spm) = Inr (csx, m')"
    by (cases "MakeCsx ex_decls (CsxManager_init ex_spm)") auto
  have rs: "rows (spm (CsxManager_init ex_spm))
      = [] @ [Elem 1 10, Elem 3 11, PatElem 5 (DeltaRLE 3 1 HORIZONTAL) [12, 13, 14]]
           # replicate 2 [] @ [Elem 2 15, Elem 300 16] # []"
    by (simp add: CsxManager_init_def ex_spm_def numeral_2_eq_2)
  have rs0: "rows (spm (CsxManager_init ex_spm))
      = replicate 0 [] @ [Elem 1 10, Elem 3 11, PatElem 5 (DeltaRLE 3 1 HORIZONTAL) [12, 13, 14]]
           # [[], [], [Elem 2 15, Elem 300 16]]"
    by (simp add: CsxManager_init_def ex_spm_def)
  have n1: "[Elem 1 10, Elem 3 11, PatElem 5 (DeltaRLE 3 1 HORIZONTAL) [12, 13, 14::nat]] \<noteq> []"
    and n2: "[Elem 2 15, Elem 300 (16::nat)] \<noteq> []" by simp_all
  have fi: "flags_inv ex_decls (CsxManager_init ex_spm)"
    by (simp add: CsxManager_init_def flags_inv_def)
  have er: "empty_rows (CsxManager_init ex_spm) = 0" by (simp add: CsxManager_init_def)
  have cap: "CTL_PATTERNS_MAX ex_decls \<le> 63" by (simp add: ex_decls_def)
  have e: "(2::nat) < 2 ^ 64" and k: "(0::nat) < 2 ^ 64" by simp_all
  from row_jump_header [OF ok fi er cap, THEN conjunct1] rs n1 n2 e
  have "\<exists>c1 f sz rest. csx_ctl csx = c1 @ [f, sz] @ da_put_ul [] 3 @ rest \<and> bit f CTL_RJMP_BIT"
    by fastforce
  moreover
  from row_jump_header [OF ok fi er cap, THEN conjunct2, THEN conjunct1] rs0 n1 k
  have "\<exists>g sz2 rest2. csx_ctl csx = [g, sz2] @ rest2 \<and> \<not> bit g CTL_RJMP_BIT"
    by fastforce
  ultimately show ?thesis using ok by blast
qed

text \<open>
  Claim C9 as stated does not say what happens before the first non-empty row, and
  fails there on either reading: after one empty row at the start the header has no
  row jump although an empty row was crossed, and after two it has the row jump 2
  although no non-empty row was emitted before (and two rows were crossed, not one).
\<close>

theorem row_jump_leading_rows:
  "map_sum id (\<lambda>r. csx_ctl (fst r))
     (MakeCsx ex_decls (CsxManager_init (ex_spm\<lparr>nr_nzeros := 1, rows := [[], [Elem 2 15]]\<rparr>)))
     = Inr [64, 1, 1] \<and>
   \<not> bit (64 :: u8) CTL_RJMP_BIT \<and>
   map_sum id (\<lambda>r. csx_ctl (fst r))
     (MakeCsx ex_decls (CsxManager_init (ex_spm\<lparr>nr_nzeros := 1, rows := [[], [], [Elem 2 15]]\<rparr>)))
     = Inr [192, 1, 2, 1] \<and>
   bit (192 :: u8) CTL_RJMP_BIT"
  by (simp add: MakeCsx_def MakeCsx_assemble_def ex_spm_def CsxManager_init_def DoRow_def
        put_value_def AddXs_def unit_head_def GetFlag_def UpdateNewRow_def
        getDeltaSize_def GetDeltaSize_cases set_bit_u8_def CTL_NR_BIT_def CTL_RJMP_BIT_def
        ex_decls_def Let_def CTL_SIZE_MAX_def da_put_ul_small bit_iff_odd_drop_bit)

section \<open>Runs and statistics\<close>

lemma RLEncode_loop_expand:
  "0 \<le> freq rle \<Longrightarrow> RLE_expand (RLEncode_loop rle ds) = replicate (nat (freq rle)) (val rle) @ ds"
proof (induction ds arbitrary: rle)
  case Nil
  then show ?case by (simp add: RLE_expand_def)
next
  case (Cons d ds)
  have a: "RLE_expand (r # rs) = replicate (nat (freq r)) (val r) @ RLE_expand rs" for r rs
    by (simp add: RLE_expand_def)
  show ?case
  proof (cases "val rle = d")
    case True
    have "nat (freq rle + 1) = Suc (nat (freq rle))" using Cons.prems by simp
    with Cons True show ?thesis by (simp add: replicate_app_Cons_same)
  next
    case False
    with Cons show ?thesis by (simp add: a)
  qed
qed

lemma RLEncode_expand: "RLE_expand (RLEncode ds) = ds"
  by (cases ds) (simp_all add: RLEncode_def RLE_expand_def RLEncode_loop_expand [unfolded RLE_expand_def])

lemma RLEncode_loop_freq:
  "1 \<le> freq rle \<Longrightarrow> \<forall>r \<in> set (RLEncode_loop rle ds). 1 \<le> freq r"
proof (induction ds arbitrary: rle)
  case Nil
  then show ?case by simp
next
  case (Cons d ds)
  show ?case
  proof (cases "val rle = d")
    case True
    with Cons.IH [of "rle\<lparr>freq := freq rle + 1\<rparr>"] Cons.prems show ?thesis by simp
  next
    case False
    with Cons.IH [of "\<lparr>freq = 1, val = d\<rparr>"] Cons.prems show ?thesis by simp
  qed
qed

lemma RLEncode_freq: "r \<in> set (RLEncode ds) \<Longrightarrow> 1 \<le> freq r"
  using RLEncode_loop_freq [of "\<lparr>freq = 1, val = hd ds\<rparr>" "tl ds"]
  by (cases ds) (auto simp: RLEncode_def)

lemma RLEncode_loop_ne: "RLEncode_loop rle ds \<noteq> []"
  by (induction ds arbitrary: rle) auto

lemma RLEncode_loop_hd: "val (hd (RLEncode_loop rle ds)) = val rle"
  by (induction ds arbitrary: rle) auto

lemma RLEncode_loop_adj: "distinct_adj (map val (RLEncode_loop rle ds))"
proof (induction ds arbitrary: rle)
  case Nil
  then show ?case by simp
next
  case (Cons d ds)
  show ?case
  proof (cases "val rle = d")
    case True
    with Cons show ?thesis by simp
  next
    case False
    have ne: "RLEncode_loop \<lparr>freq = 1, val = d\<rparr> ds \<noteq> []" by (rule RLEncode_loop_ne)
    have "val (hd (RLEncode_loop \<lparr>freq = 1, val = d\<rparr> ds)) = d"
      using RLEncode_loop_hd [of "\<lparr>freq = 1, val = d\<rparr>" ds] by simp
    with False Cons [of "\<lparr>freq = 1, val = d\<rparr>"] ne show ?thesis
      by (cases "RLEncode_loop \<lparr>freq = 1, val = d\<rparr> ds") (auto simp: distinct_adj_Cons)
  qed
qed

text \<open>The runs of \<open>RLEncode\<close> are maximal: neighbouring runs have different deltas.\<close>

lemma RLEncode_adj: "distinct_adj (map val (RLEncode ds))"
  by (cases ds) (simp_all add: RLEncode_def RLEncode_loop_adj)

lemma stats_get_credit:
  "stats_get (stats_credit st k n) d =
     (if d = k then \<lparr>nnz = nnz (stats_get st k) + n, npatterns = npatterns (stats_get st k) + 1\<rparr>
      else stats_get st d)"
  by (simp add: stats_credit_def stats_get_def update_conv')

lemma keys_credit: "fst ` set (stats_credit st k n) = insert k (fst ` set st)"
  by (simp add: stats_credit_def dom_update)

lemma credit_fold:
  "nnz (stats_get (fold (\<lambda>rle st. if ml \<le> freq rle then stats_credit st (val rle) (nat (freq rle)) else st) rles st) d)
     = nnz (stats_get st d) + sum_list (map (\<lambda>r. nat (freq r)) (good_runs ml rles d)) \<and>
   npatterns (stats_get (fold (\<lambda>rle st. if ml \<le> freq rle then stats_credit st (val rle) (nat (freq rle)) else st) rles st) d)
     = npatterns (stats_get st d) + length (good_runs ml rles d) \<and>
   (d \<in> fst ` set (fold (\<lambda>rle st. if ml \<le> freq rle then stats_credit st (val rle) (nat (freq rle)) else st) rles st)
     \<longleftrightarrow> d \<in> fst ` set st \<or> good_runs ml rles d \<noteq> [])"
proof (induction rles arbitrary: st)
  case Nil
  show ?case by (simp add: good_runs_def)
next
  case (Cons r rles)
  show ?case
    using Cons [of "if ml \<le> freq r then stats_credit st (val r) (nat (freq r)) else st"]
    by (auto simp: good_runs_def stats_get_credit keys_credit)
qed

lemma updateStats_nonblock:
  assumes nb: "isBlockType (spm_type (d_spm m)) = 0"
  shows "updateStats m xs st =
           fold (\<lambda>rle st. if min_limit m \<le> freq rle then stats_credit st (val rle) (nat (freq rle)) else st)
                (RLEncode (DeltaEncode xs)) st"
  using nb by (cases xs) (simp_all add: updateStats_def RLEncode_def DeltaEncode_def)

lemma updateStats_Nil: "updateStats m [] st = st"
  by (simp add: updateStats_def updateStatsBlock_def Let_def)

lemma generateStats_row_segs:
  "(case generateStats_elems m xs st row of (xs', st') \<Rightarrow> updateStats m xs' st')
     = fold (updateStats m) (plain_segs xs row) st"
proof (induction row arbitrary: xs st)
  case Nil
  show ?case by (simp add: updateStats_Nil)
next
  case (Cons e row)
  show ?case
  proof (cases e)
    case (Elem x v)
    with Cons show ?thesis by simp
  next
    case (PatElem x p pvs)
    with Cons show ?thesis by (simp add: updateStats_Nil)
  qed
qed

lemma credit_segs:
  assumes nb: "isBlockType (spm_type (d_spm m)) = 0"
  shows
  "nnz (stats_get (fold (updateStats m) segs st) d)
     = nnz (stats_get st d) + sum_list (map (\<lambda>r. nat (freq r))
         (good_runs (min_limit m) (concat (map (\<lambda>seg. RLEncode (DeltaEncode seg)) segs)) d)) \<and>
   npatterns (stats_get (fold (updateStats m) segs st) d)
     = npatterns (stats_get st d)
       + length (good_runs (min_limit m) (concat (map (\<lambda>seg. RLEncode (DeltaEncode seg)) segs)) d) \<and>
   (d \<in> fst ` set (fold (updateStats m) segs st)
     \<longleftrightarrow> d \<in> fst ` set st
         \<or> good_runs (min_limit m) (concat (map (\<lambda>seg. RLEncode (DeltaEncode seg)) segs)) d \<noteq> [])"
proof (induction segs arbitrary: st)
  case Nil
  show ?case by (simp add: good_runs_def)
next
  case (Cons seg segs)
  have g: "good_runs ml (a @ b) d = good_runs ml a d @ good_runs ml b d" for ml a b
    by (simp add: good_runs_def)
  show ?case
    using Cons [of "updateStats m seg st"]
      credit_fold [of "min_limit m" "RLEncode (DeltaEncode seg)" st d]
    by (simp add: updateStats_nonblock [OF nb] g)
qed

text \<open>The code's delta encoding and run-length encoding are the ones of the description.\<close>

lemma DeltaEncode_loop_nth:
  "length (DeltaEncode_loop p r) = length r \<and>
   (\<forall>i < length r. DeltaEncode_loop p r ! i = r ! i - (if i = 0 then p else r ! (i - 1)))"
proof (induction r arbitrary: p)
  case Nil
  show ?case by simp
next
  case (Cons x r)
  show ?case
  proof (intro conjI allI impI)
    show "length (DeltaEncode_loop p (x # r)) = length (x # r)" using Cons by simp
  next
    fix i assume "i < length (x # r)"
    then show "DeltaEncode_loop p (x # r) ! i = (x # r) ! i - (if i = 0 then p else (x # r) ! (i - 1))"
      using Cons [of x] by (cases i) (auto simp: nth_Cons')
  qed
qed

lemma DeltaEncode_eq: "DeltaEncode xs = col_deltas xs"
proof (cases xs)
  case Nil
  then show ?thesis by (simp add: DeltaEncode_def col_deltas_def)
next
  case (Cons x r)
  show ?thesis
  proof (rule nth_equalityI)
    show "length (DeltaEncode xs) = length (col_deltas xs)"
      using DeltaEncode_loop_nth [of x r] by (simp add: Cons DeltaEncode_def col_deltas_def)
  next
    fix i assume "i < length (DeltaEncode xs)"
    then have i: "i < Suc (length r)"
      using DeltaEncode_loop_nth [of x r] by (simp add: Cons DeltaEncode_def)
    then show "DeltaEncode xs ! i = col_deltas xs ! i"
      using DeltaEncode_loop_nth [of x r]
      by (cases i) (auto simp: Cons DeltaEncode_def col_deltas_def nth_Cons' simp del: upt_Suc)
  qed
qed

lemma RLEncode_loop_eq:
  "RLEncode_loop rle ds =
     rle\<lparr>freq := freq rle + int (length (takeWhile (\<lambda>x. x = val rle) ds))\<rparr>
       # max_runs (dropWhile (\<lambda>x. x = val rle) ds)"
proof (induction ds arbitrary: rle)
  case Nil
  show ?case by simp
next
  case (Cons d ds)
  show ?case
  proof (cases "val rle = d")
    case True
    then show ?thesis using Cons [of "rle\<lparr>freq := freq rle + 1\<rparr>"] by simp
  next
    case False
    then show ?thesis using Cons [of "\<lparr>freq = 1, val = d\<rparr>"] by simp
  qed
qed

lemma RLEncode_eq: "RLEncode ds = max_runs ds"
  by (cases ds) (simp_all add: RLEncode_def RLEncode_loop_eq)

text \<open>One row of the statistics pass.\<close>

lemma generateStats_row_credit:
  assumes nb: "isBlockType (spm_type (d_spm m)) = 0"
  shows
  "nnz (stats_get (generateStats_row m st row) d)
     = nnz (stats_get st d)
       + sum_list (map (\<lambda>r. nat (freq r)) (good_runs (min_limit m) (row_runs row) d)) \<and>
   npatterns (stats_get (generateStats_row m st row) d)
     = npatterns (stats_get st d) + length (good_runs (min_limit m) (row_runs row) d) \<and>
   (d \<in> fst ` set (generateStats_row m st row)
     \<longleftrightarrow> d \<in> fst ` set st \<or> good_runs (min_limit m) (row_runs row) d \<noteq> [])"
proof -
  have "generateStats_row m st row = fold (updateStats m) (plain_segs [] row) st"
    using generateStats_row_segs [of m "[]" st row]
    by (simp add: generateStats_row_def)
  then show ?thesis
    using credit_segs [OF nb, of "plain_segs [] row" st d]
    by (simp add: row_runs_def RLEncode_eq DeltaEncode_eq)
qed

text \<open>The rows of the pass, one after the other.\<close>

lemma generateStats_rows_credit:
  assumes nb: "isBlockType (spm_type (d_spm m)) = 0"
  shows
  "nnz (stats_get (fold (\<lambda>row stats. generateStats_row m stats row) rs st) d)
     = nnz (stats_get st d)
       + sum_list (map (\<lambda>r. nat (freq r)) (good_runs (min_limit m) (concat (map row_runs rs)) d)) \<and>
   npatterns (stats_get (fold (\<lambda>row stats. generateStats_row m stats row) rs st) d)
     = npatterns (stats_get st d) + length (good_runs (min_limit m) (concat (map row_runs rs)) d) \<and>
   (d \<in> fst ` set (fold (\<lambda>row stats. generateStats_row m stats row) rs st)
     \<longleftrightarrow> d \<in> fst ` set st \<or> good_runs (min_limit m) (concat (map row_runs rs)) d \<noteq> [])"
proof (induction rs arbitrary: st)
  case Nil
  show ?case by (simp add: good_runs_def)
next
  case (Cons row rs)
  have g: "good_runs ml (a @ b) d = good_runs ml a d @ good_runs ml b d" for ml a b
    by (simp add: good_runs_def)
  show ?case
    using Cons [of "generateStats_row m st row"] generateStats_row_credit [OF nb, of st row d]
    by (simp add: g)
qed

text \<open>
  Claim C6. For a non-block order, the statistics pass \<open>generateStats\<close> starts from the
  empty table and goes through every row of the partition; in each row it takes every
  stretch of consecutive plain elements and the maximal runs \<open>(delta, freq)\<close> of the
  deltas of its columns. The table it returns has, for every delta \<open>d\<close>, as \<open>nnz\<close> the
  sum of the frequencies of the runs of \<open>d\<close> with \<open>freq \<ge> min_limit\<close> and as \<open>npatterns\<close>
  their number; shorter runs add nothing, and \<open>d\<close> has an entry only if there is such a
  run.
\<close>

theorem generateStats_credit:
  assumes nb: "isBlockType (spm_type (d_spm m)) = 0"
  shows
  "nnz (stats_get (generateStats m) d)
     = sum_list (map (\<lambda>r. nat (freq r)) (good_runs (min_limit m) (spm_runs (d_spm m)) d)) \<and>
   npatterns (stats_get (generateStats m) d)
     = length (good_runs (min_limit m) (spm_runs (d_spm m)) d) \<and>
   (d \<in> fst ` set (generateStats m) \<longleftrightarrow> good_runs (min_limit m) (spm_runs (d_spm m)) d \<noteq> [])"
  using generateStats_rows_credit [OF nb, of "rows (d_spm m)" "[]" d]
  by (simp add: generateStats_def spm_runs_def stats_get_def)

theorem generateStats_credit_witness:
  "isBlockType (spm_type (d_spm ex_drle)) = 0 \<and>
   spm_runs (d_spm ex_drle)
     = [\<lparr>freq = 5, val = 1\<rparr>, \<lparr>freq = 1, val = 4\<rparr>, \<lparr>freq = 1, val = 1\<rparr>,
        \<lparr>freq = 1, val = 3\<rparr>, \<lparr>freq = 1, val = 4\<rparr>] \<and>
   nnz (stats_get (generateStats ex_drle) 1) = 5 \<and>
   npatterns (stats_get (generateStats ex_drle) 1) = 1 \<and>
   4 \<notin> fst ` set (generateStats ex_drle)"
proof -
  have nb: "isBlockType (spm_type (d_spm ex_drle)) = 0"
    by (simp add: ex_drle_def isBlockType_def HORIZONTAL_def BLOCK_TYPE_START_def BLOCK_COL_START_def)
  have rr: "spm_runs (d_spm ex_drle)
     = [\<lparr>freq = 5, val = 1\<rparr>, \<lparr>freq = 1, val = 4\<rparr>, \<lparr>freq = 1, val = 1\<rparr>,
        \<lparr>freq = 1, val = 3\<rparr>, \<lparr>freq = 1, val = 4\<rparr>]"
    by (simp add: ex_drle_def spm_runs_def row_runs_def col_deltas_def upt_conv_Cons)
  have ml: "min_limit ex_drle = 4" by (simp add: ex_drle_def)
  from generateStats_credit [OF nb, of 1]
  have a: "nnz (stats_get (generateStats ex_drle) 1) = 5 \<and>
           npatterns (stats_get (generateStats ex_drle) 1) = 1"
    by (simp add: rr ml good_runs_def)
  from generateStats_credit [OF nb, of 4]
  have b: "4 \<notin> fst ` set (generateStats ex_drle)"
    by (simp add: rr ml good_runs_def)
  from nb rr a b show ?thesis by simp
qed

section \<open>The encoder of a vector\<close>

lemma doEncode_plain_closed:
  "vi + n \<le> length vs \<Longrightarrow>
   doEncode_plain v n vs (col, vi, newrow) =
     Inr (col + v * of_nat n, vi + n,
          newrow @ map (\<lambda>i. Elem (col + v * of_nat (i + 1)) (vs ! (vi + i))) [0..<n])"
proof (induction n arbitrary: col vi newrow)
  case 0
  then show ?case by simp
next
  case (Suc n)
  from Suc.prems have lt: "vi < length vs" and le: "Suc vi + n \<le> length vs" by simp_all
  have IH': "doEncode_plain v n vs (col + v, Suc vi, newrow @ [Elem (col + v) (vs ! vi)]) =
     Inr ((col + v) + v * of_nat n, Suc vi + n,
          (newrow @ [Elem (col + v) (vs ! vi)])
            @ map (\<lambda>i. Elem ((col + v) + v * of_nat (i + 1)) (vs ! (Suc vi + i))) [0..<n])"
    by (rule Suc.IH [OF le])
  have c: "(col + v) + v * of_nat n = col + v * of_nat (Suc n)"
    by (simp add: algebra_simps)
  have "[0..<Suc n] = 0 # map Suc [0..<n]"
    by (simp add: upt_conv_Cons map_Suc_upt del: upt_Suc)
  then have m: "map (\<lambda>i. Elem (col + v * of_nat (i + 1)) (vs ! (vi + i))) [0..<Suc n]
         = Elem (col + v) (vs ! vi)
           # map (\<lambda>i. Elem ((col + v) + v * of_nat (i + 1)) (vs ! (Suc vi + i))) [0..<n]"
    by (simp add: algebra_simps del: upt_Suc)
  show ?case
    apply (subst doEncode_plain.simps)
    apply (simp only: lt if_True IH' c m)
    apply simp
    done
qed

text \<open>One round of the while loop, and its exit.\<close>

lemma doEncode_while_step:
  assumes a: "min_l \<le> f" and b: "\<not> cap \<le> length newrow" and c: "\<not> min max_l f < 0"
    and d: "\<not> length vs < vi + nat (min max_l f)"
  shows "doEncode_while cap min_l max_l t vs v (f, col, vi, newrow) =
     doEncode_while cap min_l max_l t vs v
       (f - min max_l f, col + v + v * of_int (min max_l f - 1), vi + nat (min max_l f),
        newrow @ [pattern_chunk t vs v (min max_l f) col vi])"
  by (subst doEncode_while.simps) (simp only: a b c d if_True if_False)

lemma doEncode_while_exit:
  "\<not> min_l \<le> f \<Longrightarrow> doEncode_while cap min_l max_l t vs v (f, st) = Inr (f, st)"
  by (cases st) (simp add: doEncode_while.simps)

lemma length_RLE_expand: "length (RLE_expand rs) = sum_list (map (\<lambda>r. nat (freq r)) rs)"
  by (induction rs) (simp_all add: RLE_expand_def)

lemma RLEncode_total_freq:
  "sum_list (map (\<lambda>r. nat (freq r)) (RLEncode (DeltaEncode xs))) = length xs"
  using length_RLE_expand [of "RLEncode (DeltaEncode xs)"]
  by (simp add: RLEncode_expand DeltaEncode_eq col_deltas_def)

text \<open>
  One run whose delta is to be encoded: the while loop followed by the loop of
  individual elements, against the description.
\<close>

lemma doEncode_run_in_set:
  assumes mn: "1 \<le> min_l" and mx: "1 \<le> max_l"
  shows "0 \<le> f \<Longrightarrow> vi + nat f \<le> length vs \<Longrightarrow> length newrow + nat f \<le> cap \<Longrightarrow>
    \<exists>a. do_encode_run min_l max_l True t v f col (drop vi vs) out = Some (out @ a) \<and>
        (case doEncode_while cap min_l max_l t vs v (f, col, vi, newrow) of
           Inl e \<Rightarrow> Inl e
         | Inr (f', st1) \<Rightarrow> doEncode_plain v (nat f') vs st1)
          = Inr (col + v * of_int f, vi + nat f, newrow @ a) \<and>
        length a \<le> nat f"
proof (induction "nat f" arbitrary: f col vi newrow out rule: less_induct)
  case less
  show ?case
  proof (cases "min_l \<le> f")
    case False
    define a where "a = map (\<lambda>i. Elem (col + v * of_nat (i + 1)) (drop vi vs ! i)) [0..<nat f]"
    have pl: "map (\<lambda>i. Elem (col + v * of_nat (i + 1)) (vs ! (vi + i))) [0..<nat f]
            = map (\<lambda>i. Elem (col + v * of_nat (i + 1)) (drop vi vs ! i)) [0..<nat f]"
      using less.prems by (intro map_cong refl) (simp add: add.commute)
    have sp: "do_encode_run min_l max_l True t v f col (drop vi vs) out = Some (out @ a)"
      using False by (subst do_encode_run.simps) (simp add: a_def)
    have c: "col + v * of_nat (nat f) = col + v * of_int f"
      using less.prems by simp
    have cd: "(case doEncode_while cap min_l max_l t vs v (f, col, vi, newrow) of
           Inl e \<Rightarrow> Inl e
         | Inr (f', st1) \<Rightarrow> doEncode_plain v (nat f') vs st1)
          = Inr (col + v * of_int f, vi + nat f, newrow @ a)"
      using False less.prems
      by (simp add: doEncode_while_exit doEncode_plain_closed pl c a_def)
    have "length a \<le> nat f" by (simp add: a_def)
    with sp cd show ?thesis by blast
  next
    case True
    define chunk where "chunk = min max_l f"
    from True mn mx have ch: "1 \<le> chunk" "chunk \<le> f" by (simp_all add: chunk_def)
    from ch have c: "\<not> min max_l f < 0" unfolding chunk_def by linarith
    from ch less.prems have d: "\<not> length vs < vi + nat (min max_l f)" by (simp add: chunk_def)
    from ch less.prems have b: "\<not> cap \<le> length newrow" by simp
    from ch have lt: "nat (f - chunk) < nat f" by simp
    define pat where "pat = pattern_chunk t vs v chunk col vi"
    from ch less.prems have p1: "0 \<le> f - chunk" and
      p2: "(vi + nat chunk) + nat (f - chunk) \<le> length vs" and
      p3: "length (newrow @ [pat]) + nat (f - chunk) \<le> cap" by simp_all
    have col': "col + v + v * of_int (chunk - 1) = col + v * of_int chunk"
      by (simp add: algebra_simps)
    have fin: "col + v * of_int chunk + v * of_int (f - chunk) = col + v * of_int f"
      by (simp add: algebra_simps)
    have vi': "vi + nat chunk + nat (f - chunk) = vi + nat f" using ch by simp
    have step: "doEncode_while cap min_l max_l t vs v (f, col, vi, newrow) =
      doEncode_while cap min_l max_l t vs v
        (f - chunk, col + v * of_int chunk, vi + nat chunk, newrow @ [pat])"
      using doEncode_while_step [OF True b c d]
      by (simp only: chunk_def [symmetric] col' pat_def)
    from less.hyps [OF lt p1 p2 p3, of "col + v * of_int chunk" "out @ [pat]"]
    obtain a where
      s: "do_encode_run min_l max_l True t v (f - chunk) (col + v * of_int chunk)
            (drop (vi + nat chunk) vs) (out @ [pat]) = Some ((out @ [pat]) @ a)" and
      k: "(case doEncode_while cap min_l max_l t vs v
                 (f - chunk, col + v * of_int chunk, vi + nat chunk, newrow @ [pat]) of
             Inl e \<Rightarrow> Inl e
           | Inr (f', st1) \<Rightarrow> doEncode_plain v (nat f') vs st1)
          = Inr (col + v * of_int chunk + v * of_int (f - chunk),
                 vi + nat chunk + nat (f - chunk), (newrow @ [pat]) @ a)" and
      l: "length a \<le> nat (f - chunk)"
      by blast
    have sp: "do_encode_run min_l max_l True t v f col (drop vi vs) out = Some (out @ pat # a)"
      using True s
      by (subst do_encode_run.simps)
         (simp add: chunk_def [symmetric] pat_def pattern_chunk_def add.commute)
    have cd: "(case doEncode_while cap min_l max_l t vs v (f, col, vi, newrow) of
           Inl e \<Rightarrow> Inl e
         | Inr (f', st1) \<Rightarrow> doEncode_plain v (nat f') vs st1)
          = Inr (col + v * of_int f, vi + nat f, newrow @ pat # a)"
      unfolding step k fin vi' by simp
    have "length (pat # a) \<le> nat f" using l ch by simp
    with sp cd show ?thesis by blast
  qed
qed

lemma doEncode_run_not_in_set:
  assumes f: "0 \<le> f" and l: "vi + nat f \<le> length vs"
  shows "\<exists>a. do_encode_run min_l max_l False t v f col (drop vi vs) out = Some (out @ a) \<and>
     doEncode_plain v (nat f) vs (col, vi, newrow)
       = Inr (col + v * of_int f, vi + nat f, newrow @ a) \<and>
     length a \<le> nat f"
proof -
  define a where "a = map (\<lambda>i. Elem (col + v * of_nat (i + 1)) (drop vi vs ! i)) [0..<nat f]"
  have pl: "map (\<lambda>i. Elem (col + v * of_nat (i + 1)) (vs ! (vi + i))) [0..<nat f]
          = map (\<lambda>i. Elem (col + v * of_nat (i + 1)) (drop vi vs ! i)) [0..<nat f]"
    using l by (intro map_cong refl) (simp add: add.commute)
  have sp: "do_encode_run min_l max_l False t v f col (drop vi vs) out = Some (out @ a)"
    by (subst do_encode_run.simps) (simp add: a_def)
  have c: "col + v * of_nat (nat f) = col + v * of_int f" using f by simp
  have "doEncode_plain v (nat f) vs (col, vi, newrow)
       = Inr (col + v * of_int f, vi + nat f, newrow @ a)"
    using l by (simp add: doEncode_plain_closed pl c a_def)
  moreover have "length a \<le> nat f" by (simp add: a_def)
  ultimately show ?thesis using sp by blast
qed

text \<open>The body of the \<open>FOREACH\<close> for one run, and the runs in turn.\<close>

lemma doEncode_rle_refines:
  assumes mn: "1 \<le> min_limit m" and mx: "1 \<le> max_limit m"
    and f: "0 \<le> freq r" and l: "vi + nat (freq r) \<le> length vs"
    and c: "length newrow + nat (freq r) \<le> newrow_max m"
  shows "\<exists>a. do_encode_run (min_limit m) (max_limit m)
               (val r \<in> DeltasToEncode m (spm_type (d_spm m))) (spm_type (d_spm m))
               (val r) (freq r) col (drop vi vs) out = Some (out @ a) \<and>
             doEncode_rle m vs r (col, vi, newrow)
               = Inr (col + val r * of_int (freq r), vi + nat (freq r), newrow @ a) \<and>
             length a \<le> nat (freq r)"
proof (cases "val r \<in> DeltasToEncode m (spm_type (d_spm m))")
  case True
  with doEncode_run_in_set [OF mn mx f l c, of "spm_type (d_spm m)" "val r" col out]
  show ?thesis by (simp add: doEncode_rle_def)
next
  case False
  with doEncode_run_not_in_set [OF f l, of "min_limit m" "max_limit m" "spm_type (d_spm m)" "val r" col out newrow]
  show ?thesis by (simp add: doEncode_rle_def)
qed

lemma doEncode_rles_refines:
  assumes mn: "1 \<le> min_limit m" and mx: "1 \<le> max_limit m"
  shows "\<forall>r \<in> set rs. 0 \<le> freq r \<Longrightarrow>
    vi + sum_list (map (\<lambda>r. nat (freq r)) rs) \<le> length vs \<Longrightarrow>
    length newrow + sum_list (map (\<lambda>r. nat (freq r)) rs) \<le> newrow_max m \<Longrightarrow>
    \<exists>a col'. do_encode_runs (min_limit m) (max_limit m) (DeltasToEncode m (spm_type (d_spm m)))
                 (spm_type (d_spm m)) rs col (drop vi vs) out = Some (out @ a) \<and>
              doEncode_rles m vs rs (col, vi, newrow)
                = Inr (col', vi + sum_list (map (\<lambda>r. nat (freq r)) rs), newrow @ a) \<and>
              length a \<le> sum_list (map (\<lambda>r. nat (freq r)) rs)"
proof (induction rs arbitrary: col vi newrow out)
  case Nil
  show ?case by simp
next
  case (Cons r rs)
  from Cons.prems have f: "0 \<le> freq r" and l: "vi + nat (freq r) \<le> length vs"
    and c: "length newrow + nat (freq r) \<le> newrow_max m" by simp_all
  from doEncode_rle_refines [OF mn mx f l c, of col out] obtain a where
    s1: "do_encode_run (min_limit m) (max_limit m)
               (val r \<in> DeltasToEncode m (spm_type (d_spm m))) (spm_type (d_spm m))
               (val r) (freq r) col (drop vi vs) out = Some (out @ a)" and
    k1: "doEncode_rle m vs r (col, vi, newrow)
               = Inr (col + val r * of_int (freq r), vi + nat (freq r), newrow @ a)" and
    l1: "length a \<le> nat (freq r)" by blast
  from Cons.prems l1 have
    p1: "\<forall>r \<in> set rs. 0 \<le> freq r" and
    p2: "(vi + nat (freq r)) + sum_list (map (\<lambda>r. nat (freq r)) rs) \<le> length vs" and
    p3: "length (newrow @ a) + sum_list (map (\<lambda>r. nat (freq r)) rs) \<le> newrow_max m"
    by simp_all
  from Cons.IH [OF p1 p2 p3, of "col + val r * of_int (freq r)" "out @ a"] obtain a2 col' where
    s2: "do_encode_runs (min_limit m) (max_limit m) (DeltasToEncode m (spm_type (d_spm m)))
           (spm_type (d_spm m)) rs (col + val r * of_int (freq r)) (drop (vi + nat (freq r)) vs)
           (out @ a) = Some ((out @ a) @ a2)" and
    k2: "doEncode_rles m vs rs (col + val r * of_int (freq r), vi + nat (freq r), newrow @ a)
           = Inr (col', vi + nat (freq r) + sum_list (map (\<lambda>r. nat (freq r)) rs),
                  (newrow @ a) @ a2)" and
    l2: "length a2 \<le> sum_list (map (\<lambda>r. nat (freq r)) rs)" by blast
  have "do_encode_runs (min_limit m) (max_limit m) (DeltasToEncode m (spm_type (d_spm m)))
           (spm_type (d_spm m)) (r # rs) col (drop vi vs) out = Some (out @ (a @ a2))"
    using s1 s2 by (simp add: add.commute)
  moreover have "doEncode_rles m vs (r # rs) (col, vi, newrow)
           = Inr (col', vi + sum_list (map (\<lambda>r. nat (freq r)) (r # rs)), newrow @ (a @ a2))"
    using k1 k2 by (simp add: add.assoc)
  moreover have "length (a @ a2) \<le> sum_list (map (\<lambda>r. nat (freq r)) (r # rs))"
    using l1 l2 by simp
  ultimately show ?case by blast
qed

text \<open>
  Claim C4, for the configurations with \<open>min_limit \<ge> 1\<close> and \<open>max_limit \<ge> 1\<close>. On a
  non-block order \<open>doEncode\<close>, called with as many values as columns and with room for
  the elements in \<open>newrow\<close>, returns, and what it appends to \<open>newrow\<close> is what the
  description gives for the runs of the delta-RLE of \<open>xs\<close>, taken in order from column
  0: for a run \<open>(val, freq)\<close> whose \<open>val\<close> is a delta to encode, chunks of
  \<open>min(max_limit, freq)\<close> elements while \<open>freq \<ge> min_limit\<close>, each one pattern element at
  \<open>col + val\<close> with the descriptor (type, delta \<open>val\<close>, size chunk) and the next chunk
  values, the column advancing by \<open>val \<times> chunk\<close>; what is left of \<open>freq\<close>, and every run
  of another delta, as individual elements, one per step of \<open>val\<close>.
\<close>

theorem doEncode_refines:
  assumes nb: "isBlockType (spm_type (d_spm m)) = 0"
    and mn: "1 \<le> min_limit m" and mx: "1 \<le> max_limit m"
    and len: "length vs = length xs"
    and cap: "length newrow + length xs \<le> newrow_max m"
  shows "\<exists>out. do_encode_spec (min_limit m) (max_limit m) (DeltasToEncode m (spm_type (d_spm m)))
                  (spm_type (d_spm m)) xs vs = Some out \<and>
               doEncode m xs vs newrow = Inr (newrow @ out)"
proof -
  define rs where "rs = RLEncode (DeltaEncode xs)"
  have sm: "sum_list (map (\<lambda>r. nat (freq r)) rs) = length xs"
    by (simp add: rs_def RLEncode_total_freq)
  have fr: "\<forall>r \<in> set rs. 0 \<le> freq r"
    using RLEncode_freq [of _ "DeltaEncode xs"] by (fastforce simp: rs_def)
  have l: "0 + sum_list (map (\<lambda>r. nat (freq r)) rs) \<le> length vs" by (simp add: sm len)
  have c: "length newrow + sum_list (map (\<lambda>r. nat (freq r)) rs) \<le> newrow_max m"
    by (simp add: sm cap)
  from doEncode_rles_refines [OF mn mx fr l c, of 0 "[]"] obtain a col' where
    s: "do_encode_runs (min_limit m) (max_limit m) (DeltasToEncode m (spm_type (d_spm m)))
          (spm_type (d_spm m)) rs 0 vs [] = Some a" and
    k: "doEncode_rles m vs rs (0, 0, newrow) = Inr (col', length xs, newrow @ a)"
    by (auto simp: sm)
  have "do_encode_spec (min_limit m) (max_limit m) (DeltasToEncode m (spm_type (d_spm m)))
          (spm_type (d_spm m)) xs vs = Some a"
    using s by (simp add: do_encode_spec_def rs_def RLEncode_eq DeltaEncode_eq)
  moreover have "doEncode m xs vs newrow = Inr (newrow @ a)"
    using k nb by (simp add: doEncode_def rs_def [symmetric] len)
  ultimately show ?thesis by blast
qed

theorem doEncode_refines_witness:
  "doEncode (ex_drle\<lparr>min_limit := 2, max_limit := 3, DeltasToEncode := (\<lambda>t. {1})\<rparr>)
     [1, 2, 3, 4, 5, 9, 10] [10, 20, 30, 40, 50, 60, 70] []
   = Inr [PatElem 1 (DeltaRLE 3 1 HORIZONTAL) [10, 20, 30],
          PatElem 4 (DeltaRLE 2 1 HORIZONTAL) [40, 50],
          Elem 9 60, Elem 10 (70::nat)]"
proof -
  define M where "M = ex_drle\<lparr>min_limit := 2, max_limit := 3, DeltasToEncode := (\<lambda>t. {1})\<rparr>"
  have nb: "isBlockType (spm_type (d_spm M)) = 0"
    by (simp add: M_def ex_drle_def isBlockType_def HORIZONTAL_def BLOCK_TYPE_START_def
          BLOCK_COL_START_def)
  have mn: "1 \<le> min_limit M" and mx: "1 \<le> max_limit M" by (simp_all add: M_def)
  have len: "length [10, 20, 30, 40, 50, 60, 70::nat] = length [1, 2, 3, 4, 5, 9, 10::u64]"
    by simp
  have cap: "length ([] :: nat SpmRowElem list) + length [1, 2, 3, 4, 5, 9, 10::u64] \<le> newrow_max M"
    by (simp add: M_def ex_drle_def)
  have sp: "do_encode_spec (min_limit M) (max_limit M) (DeltasToEncode M (spm_type (d_spm M)))
              (spm_type (d_spm M)) [1, 2, 3, 4, 5, 9, 10] [10, 20, 30, 40, 50, 60, 70::nat]
            = Some [PatElem 1 (DeltaRLE 3 1 HORIZONTAL) [10, 20, 30],
                    PatElem 4 (DeltaRLE 2 1 HORIZONTAL) [40, 50],
                    Elem 9 60, Elem 10 70]"
    by (simp add: M_def ex_drle_def do_encode_spec_def col_deltas_def upt_conv_Cons
          do_encode_run.simps)
  from doEncode_refines [OF nb mn mx len cap] sp show ?thesis
    unfolding M_def by simp
qed

text \<open>
  Claim C4 as stated, for every configuration, fails: with \<open>max_limit = -1\<close> the run
  of delta 1 and frequency 5 reaches \<open>min_limit = 4\<close>, and instead of a pattern element
  of size \<open>min(max_limit, freq)\<close> the allocation of its values throws.
\<close>

theorem doEncode_negative_limit_fails:
  "doEncode (ex_drle\<lparr>max_limit := - 1, DeltasToEncode := (\<lambda>t. {1})\<rparr>)
     [1, 2, 3, 4, 5, 9, 10] [10, 20, 30, 40, 50, 60, 70::nat] [] = Inl BadAlloc"
  by (simp add: ex_drle_def doEncode_def doEncode_rle_def isBlockType_def HORIZONTAL_def
        BLOCK_TYPE_START_def BLOCK_COL_START_def RLEncode_def DeltaEncode_def
        doEncode_while.simps)

section \<open>The planner loop\<close>

text \<open>A round of the planner that encodes adds the order to the ignore set.\<close>

lemma Encode_cases:
  assumes t: "t \<noteq> NONE"
  shows "(\<exists>e. Encode T m t = Inl e) \<or>
         (\<exists>m'. Encode T m t = Inr m' \<and> xforms_ignore m' = insert t (xforms_ignore m))"
proof -
  define m1 where "m1 = m\<lparr>d_spm := T t (d_spm m)\<rparr>"
  show ?thesis
    using t
    by (cases "EncodeRows m1 (rows (d_spm m1))")
       (auto simp: Encode_def Let_def m1_def [symmetric] addIgnore_def, auto simp: m1_def)
qed

lemma chooseType_loop_mem:
  "chooseType_loop m ret mx l = ret \<or> chooseType_loop m ret mx l \<in> fst ` set l"
  by (induction m ret mx l rule: chooseType_loop.induct) (auto simp: Let_def)

lemma chooseType_mem: "chooseType m \<noteq> NONE \<Longrightarrow> chooseType m \<in> fst ` set (stats_map m)"
  using chooseType_loop_mem [of m NONE 0 "stats_map m"] by (auto simp: chooseType_def)

text \<open>\<open>chooseType\<close> gives \<open>NONE\<close> exactly when no order of the table has a positive score.\<close>

lemma chooseType_loop_none:
  "NONE \<notin> fst ` set l \<Longrightarrow>
   chooseType_loop m ret mx l = NONE \<longleftrightarrow>
     ret = NONE \<and> (\<forall>e \<in> set l. \<not> mx < getTypeScore m (fst e))"
proof (induction l arbitrary: ret mx)
  case Nil
  show ?case by simp
next
  case (Cons e l)
  from Cons.prems have ne: "fst e \<noteq> NONE" and r: "NONE \<notin> fst ` set l" by auto
  show ?case
  proof (cases "mx < getTypeScore m (fst e)")
    case True
    then show ?thesis using Cons.IH [OF r, of "fst e" "getTypeScore m (fst e)"] ne
      by (auto simp: Let_def)
  next
    case False
    then show ?thesis using Cons.IH [OF r, of ret mx] by (auto simp: Let_def)
  qed
qed

lemma chooseType_none:
  "NONE \<notin> fst ` set (stats_map m) \<Longrightarrow>
   chooseType m = NONE \<longleftrightarrow> (\<forall>t \<in> fst ` set (stats_map m). getTypeScore m t = 0)"
  using chooseType_loop_none [of "stats_map m" m NONE 0]
  by (auto simp: chooseType_def word_gt_0)

lemma genAllStats_type_frame:
  "xforms_ignore (genAllStats_type T t m) = xforms_ignore m \<and>
   min_limit (genAllStats_type T t m) = min_limit m \<and>
   max_limit (genAllStats_type T t m) = max_limit m \<and>
   newrow_max (genAllStats_type T t m) = newrow_max m \<and>
   fst ` set (stats_map (genAllStats_type T t m))
     \<subseteq> ({t} - xforms_ignore m) \<union> fst ` set (stats_map m)"
  by (auto simp: genAllStats_type_def Let_def dom_update)

lemma genAllStats_fold_frame:
  "xforms_ignore (fold (genAllStats_type T) ts m) = xforms_ignore m \<and>
   min_limit (fold (genAllStats_type T) ts m) = min_limit m \<and>
   max_limit (fold (genAllStats_type T) ts m) = max_limit m \<and>
   newrow_max (fold (genAllStats_type T) ts m) = newrow_max m \<and>
   fst ` set (stats_map (fold (genAllStats_type T) ts m))
     \<subseteq> (set ts - xforms_ignore m) \<union> fst ` set (stats_map m)"
proof (induction ts arbitrary: m)
  case Nil
  show ?case by simp
next
  case (Cons t ts)
  show ?case using Cons [of "genAllStats_type T t m"] genAllStats_type_frame [of T t m]
    by (simp del: fold_simps add: fold_Cons) blast
qed

lemma genAllStats_frame:
  "xforms_ignore (genAllStats T m) = xforms_ignore m \<and>
   min_limit (genAllStats T m) = min_limit m \<and>
   max_limit (genAllStats T m) = max_limit m \<and>
   newrow_max (genAllStats T m) = newrow_max m \<and>
   fst ` set (stats_map (genAllStats T m)) \<subseteq> {HORIZONTAL..<XFORM_MAX} - xforms_ignore m"
  using genAllStats_fold_frame [of T "[HORIZONTAL..<XFORM_MAX]" "m\<lparr>stats_map := []\<rparr>"]
  by (simp add: genAllStats_def)

lemma genAllStats_keys: "NONE \<notin> fst ` set (stats_map (genAllStats T m))"
  using genAllStats_frame [of T m] by (auto simp: NONE_def HORIZONTAL_def)

text \<open>What one round of the loop does.\<close>

lemma EncodeAll_round:
  "chooseType (genAllStats T m) = NONE \<and> EncodeAll T m = Some (Inr (genAllStats T m)) \<or>
   (\<exists>e. Encode T (genAllStats T m) (chooseType (genAllStats T m)) = Inl e \<and>
        EncodeAll T m = Some (Inl e)) \<or>
   (\<exists>m2. Encode T (genAllStats T m) (chooseType (genAllStats T m)) = Inr m2 \<and>
         chooseType (genAllStats T m) \<in> {HORIZONTAL..<XFORM_MAX} \<and>
         chooseType (genAllStats T m) \<notin> xforms_ignore m \<and>
         xforms_ignore m2 = insert (chooseType (genAllStats T m)) (xforms_ignore m) \<and>
         EncodeAll T m = EncodeAll T m2)"
proof (cases "chooseType (genAllStats T m) = NONE")
  case True
  then show ?thesis by (subst EncodeAll.simps) simp
next
  case False
  define g where "g = genAllStats T m"
  note fr = genAllStats_frame [of T m, folded g_def]
  from chooseType_mem [of g] False fr
  have tin: "chooseType g \<in> {HORIZONTAL..<XFORM_MAX} - xforms_ignore m" by (auto simp: g_def)
  from Encode_cases [of "chooseType g" T g] False
  consider e where "Encode T g (chooseType g) = Inl e"
    | m2 where "Encode T g (chooseType g) = Inr m2"
        "xforms_ignore m2 = insert (chooseType g) (xforms_ignore g)"
    by (auto simp: g_def)
  then show ?thesis
  proof cases
    case 1
    then have "EncodeAll T m = Some (Inl e)"
      using False by (subst EncodeAll.simps) (simp add: g_def)
    with 1 show ?thesis by (auto simp: g_def)
  next
    case 2
    then have "EncodeAll T m = EncodeAll T m2"
      using False by (subst EncodeAll.simps) (simp add: g_def)
    with 2 tin fr show ?thesis by (auto simp: g_def)
  qed
qed

lemma EncodeAll_rounds_total:
  "card ({HORIZONTAL..<XFORM_MAX} - xforms_ignore m) < n \<Longrightarrow>
   \<exists>r. EncodeAll T m = Some r \<and> EncodeAll_rounds T n m = Some r"
proof (induction n arbitrary: m)
  case 0
  then show ?case by simp
next
  case (Suc n)
  show ?case
  proof (cases "chooseType (genAllStats T m) = NONE")
    case True
    then show ?thesis by (subst EncodeAll.simps) simp
  next
    case False
    with EncodeAll_round [of T m]
    consider e where
        "Encode T (genAllStats T m) (chooseType (genAllStats T m)) = Inl e"
        "EncodeAll T m = Some (Inl e)"
      | m2 where
        "Encode T (genAllStats T m) (chooseType (genAllStats T m)) = Inr m2"
        "chooseType (genAllStats T m) \<in> {HORIZONTAL..<XFORM_MAX}"
        "chooseType (genAllStats T m) \<notin> xforms_ignore m"
        "xforms_ignore m2 = insert (chooseType (genAllStats T m)) (xforms_ignore m)"
        "EncodeAll T m = EncodeAll T m2"
      by blast
    then show ?thesis
    proof cases
      case 1
      then show ?thesis using False by simp
    next
      case 2
      have "{HORIZONTAL..<XFORM_MAX} - xforms_ignore m2
                \<subset> {HORIZONTAL..<XFORM_MAX} - xforms_ignore m"
        using 2(2,3,4) by auto
      then have "card ({HORIZONTAL..<XFORM_MAX} - xforms_ignore m2)
                     < card ({HORIZONTAL..<XFORM_MAX} - xforms_ignore m)"
        by (intro psubset_card_mono) auto
      with Suc.prems have c: "card ({HORIZONTAL..<XFORM_MAX} - xforms_ignore m2) < n" by simp
      from Suc.IH [OF c] obtain r where
        "EncodeAll T m2 = Some r" "EncodeAll_rounds T n m2 = Some r" by blast
      then show ?thesis using 2 False by simp
    qed
  qed
qed

text \<open>
  Claim C7, with the failing rounds that the claim leaves out. For every partition and
  every configuration the planner loop \<open>EncodeAll\<close> returns, within \<open>XFORM_MAX\<close> rounds.
  A round either stops the loop because \<open>chooseType\<close> gives \<open>NONE\<close>, which it does
  exactly when no order of the table has a score other than 0; or its \<open>Encode\<close> fails
  (an allocation, an assertion or a division by zero), which ends the loop with the
  failure; or it encodes the chosen order, which was not ignored, and adds it to the
  ignore set, and the loop goes on from there.
\<close>

theorem EncodeAll_terminates:
  "(\<exists>r. EncodeAll Transform m = Some r \<and> EncodeAll_rounds Transform XFORM_MAX m = Some r) \<and>
   (chooseType (genAllStats Transform m) = NONE \<and>
      EncodeAll Transform m = Some (Inr (genAllStats Transform m)) \<or>
    (\<exists>e. Encode Transform (genAllStats Transform m) (chooseType (genAllStats Transform m)) = Inl e \<and>
         EncodeAll Transform m = Some (Inl e)) \<or>
    (\<exists>m2. Encode Transform (genAllStats Transform m) (chooseType (genAllStats Transform m)) = Inr m2 \<and>
          chooseType (genAllStats Transform m) \<in> {HORIZONTAL..<XFORM_MAX} \<and>
          chooseType (genAllStats Transform m) \<notin> xforms_ignore m \<and>
          xforms_ignore m2 = insert (chooseType (genAllStats Transform m)) (xforms_ignore m) \<and>
          EncodeAll Transform m = EncodeAll Transform m2)) \<and>
   (chooseType (genAllStats Transform m) = NONE \<longleftrightarrow>
      (\<forall>t \<in> fst ` set (stats_map (genAllStats Transform m)).
         getTypeScore (genAllStats Transform m) t = 0))"
proof -
  have "card ({HORIZONTAL..<XFORM_MAX} - xforms_ignore m) \<le> card {HORIZONTAL..<XFORM_MAX}"
    by (intro card_mono) auto
  then have "card ({HORIZONTAL..<XFORM_MAX} - xforms_ignore m) < XFORM_MAX"
    by (simp add: HORIZONTAL_def XFORM_MAX_def)
  from EncodeAll_rounds_total [OF this, of Transform] EncodeAll_round [of Transform m]
    chooseType_none [OF genAllStats_keys [of Transform m]]
  show ?thesis by blast
qed

text \<open>The statistics when every order but one is ignored.\<close>

lemma fold_ignored:
  "\<forall>t\<in>set ts. t \<in> xforms_ignore m \<Longrightarrow> fold (genAllStats_type T) ts m = m"
  by (induction ts) (auto simp: genAllStats_type_def)

lemma genAllStats_only_horizontal:
  assumes "\<forall>t\<in>{VERTICAL..<XFORM_MAX}. t \<in> xforms_ignore m"
  shows "genAllStats T m = genAllStats_type T HORIZONTAL (m\<lparr>stats_map := []\<rparr>)"
proof -
  have u: "[HORIZONTAL..<XFORM_MAX] = HORIZONTAL # [VERTICAL..<XFORM_MAX]"
  proof -
    have lt: "HORIZONTAL < XFORM_MAX" by (simp add: HORIZONTAL_def XFORM_MAX_def)
    have sv: "Suc HORIZONTAL = VERTICAL" by (simp add: HORIZONTAL_def VERTICAL_def)
    show ?thesis by (simp only: upt_conv_Cons [OF lt] sv)
  qed
  have "\<forall>t\<in>set [VERTICAL..<XFORM_MAX].
          t \<in> xforms_ignore (genAllStats_type T HORIZONTAL (m\<lparr>stats_map := []\<rparr>))"
    using assms genAllStats_type_frame [of T HORIZONTAL "m\<lparr>stats_map := []\<rparr>"] by simp
  from fold_ignored [OF this] show ?thesis
    by (simp add: genAllStats_def u)
qed

lemma genAllStats_ex_max0:
  "genAllStats ex_xform ex_drle_max0 =
     ex_drle_max0\<lparr>stats_map := [(HORIZONTAL, [(1, \<lparr>nnz = 5, npatterns = 1\<rparr>)])],
                  DeltasToEncode := (\<lambda>t. {})(HORIZONTAL := {1})\<rparr>"
proof -
  have i: "\<forall>t\<in>{VERTICAL..<XFORM_MAX}. t \<in> xforms_ignore ex_drle_max0"
    by (simp add: ex_drle_max0_def)
  show ?thesis
    unfolding genAllStats_only_horizontal [OF i]
    by (simp add: genAllStats_type_def ex_drle_max0_def VERTICAL_def XFORM_MAX_def Let_def
          ex_drle_def ex_xform_def HORIZONTAL_def NONE_def generateStats_def generateStats_row_def
          updateStats_def isBlockType_def BLOCK_TYPE_START_def BLOCK_COL_START_def
          BLOCK_TYPE_END_def RLEncode_def DeltaEncode_def stats_credit_def stats_get_def
          Collect_conv_if Collect_conv_if2)
qed

lemma chooseType_ex_max0: "chooseType (genAllStats ex_xform ex_drle_max0) = HORIZONTAL"
  by (simp add: genAllStats_ex_max0 chooseType_def getTypeScore_def Let_def HORIZONTAL_def NONE_def)

theorem EncodeAll_terminates_witness:
  "chooseType (genAllStats ex_xform ex_drle_max0) \<noteq> NONE \<and>
   \<not> (\<forall>t \<in> fst ` set (stats_map (genAllStats ex_xform ex_drle_max0)).
         getTypeScore (genAllStats ex_xform ex_drle_max0) t = 0) \<and>
   (\<exists>r. EncodeAll ex_xform ex_drle_max0 = Some r \<and>
        EncodeAll_rounds ex_xform XFORM_MAX ex_drle_max0 = Some r)"
  using EncodeAll_terminates [of ex_xform ex_drle_max0]
  by (simp add: chooseType_ex_max0 HORIZONTAL_def NONE_def)

text \<open>
  With \<open>max_limit = 0\<close> the while loop of \<open>doEncode\<close> takes chunks of size 0, which do
  not reduce the frequency of the run, until \<open>newrow\<close> cannot grow any more.
\<close>

lemma doEncode_while_max0:
  "min_l \<le> f \<Longrightarrow> 0 \<le> f \<Longrightarrow> vi \<le> length vs \<Longrightarrow>
   doEncode_while cap min_l 0 t vs v (f, col, vi, newrow) = Inl BadAlloc"
proof (induction "cap - length newrow" arbitrary: col newrow)
  case 0
  then show ?case by (subst doEncode_while.simps) simp
next
  case (Suc k)
  from Suc.hyps(2) have k: "k = cap - length (newrow @ [pattern_chunk t vs v 0 col vi])"
    and b: "\<not> cap \<le> length newrow" by simp_all
  have m0: "min 0 f = 0" using Suc.prems by simp
  from Suc.hyps(1) [OF k Suc.prems, of "col + v + v * of_int (0 - 1)"]
  show ?case
    using Suc.prems b by (subst doEncode_while.simps) (simp add: m0)
qed

lemma Encode_ex_max0:
  "Encode ex_xform (genAllStats ex_xform ex_drle_max0) HORIZONTAL = Inl BadAlloc"
proof -
  have w: "doEncode_while cap 4 0 t vs v (5, 0, 0, []) = Inl BadAlloc"
    for cap t v and vs :: "nat list"
    by (rule doEncode_while_max0) simp_all
  show ?thesis
    unfolding genAllStats_ex_max0
    by (simp add: Encode_def Let_def ex_drle_max0_def ex_drle_def ex_xform_def
          HORIZONTAL_def NONE_def EncodeRow_def doEncode_def doEncode_rle_def
          isBlockType_def BLOCK_TYPE_START_def BLOCK_COL_START_def BLOCK_TYPE_END_def
          RLEncode_def DeltaEncode_def w)
qed

text \<open>
  Claim C7 as stated fails: a round need neither stop the loop nor encode the chosen
  order. With \<open>max_limit = 0\<close> the first round on the example partition chooses the
  horizontal order and its \<open>Encode\<close> ends in a failed allocation, and with it the loop.
\<close>

theorem EncodeAll_max0_fails:
  "chooseType (genAllStats ex_xform ex_drle_max0) = HORIZONTAL \<and>
   EncodeAll ex_xform ex_drle_max0 = Some (Inl BadAlloc)"
proof -
  have n: "HORIZONTAL \<noteq> NONE" by (simp add: HORIZONTAL_def NONE_def)
  have "EncodeAll ex_xform ex_drle_max0 = Some (Inl BadAlloc)"
    by (subst EncodeAll.simps) (simp add: chooseType_ex_max0 Encode_ex_max0 n)
  then show ?thesis by (simp add: chooseType_ex_max0)
qed

end
